theory Spec2Isabelle
  imports Main
begin

section \<open>Visitor analytics: convex/stats.ts\<close>

subsection \<open>Constants\<close>

text \<open>All times are milliseconds since the epoch, as returned by \<^verbatim>\<open>Date.now()\<close>;
  they are integers far below \<open>2^53\<close>, so the subtractions and comparisons of the source
  are exact and \<^typ>\<open>int\<close> models them.\<close>

definition DEDUP_WINDOW_MS :: int where
  "DEDUP_WINDOW_MS = 30 * 60 * 1000"

definition SESSION_TIMEOUT_MS :: int where
  "SESSION_TIMEOUT_MS = 2 * 60 * 1000"

definition HEARTBEAT_DEDUP_MS :: int where
  "HEARTBEAT_DEDUP_MS = 10 * 1000"

subsection \<open>Documents and tables\<close>

text \<open>A document carries the \<^verbatim>\<open>_id\<close> the database gave it. A table is the list of its
  documents in creation order (ascending \<^verbatim>\<open>_creationTime\<close>): an insert appends, a patch
  rewrites a document in place, a delete removes it. Identifiers are drawn from one counter
  of the store, so a fresh one differs from every identifier handed out before.\<close>

type_synonym doc_id = nat

record pageView =
  pv_id :: doc_id
  path :: string
  pageType :: string
  sessionId :: string
  timestamp :: int

record activeSession =
  as_id :: doc_id
  as_sessionId :: string
  currentPath :: string
  lastSeen :: int

subsection \<open>The aggregate component\<close>

text \<open>Modelled from the spec: the \<^verbatim>\<open>TableAggregate\<close> class of the aggregate component
  is not part of the sources. The spec describes its \<^verbatim>\<open>insertIfDoesNotExist\<close> as
  insert-if-absent keyed by event identity: an aggregate holds at most one entry per
  (namespace, sort key, document id), and inserting an entry that is present changes nothing.
  An aggregate is therefore the set of its entries.\<close>

type_synonym ('n, 'k) TableAggregate = "('n \<times> 'k \<times> doc_id) set"

definition insertIfDoesNotExist ::
  "(pageView \<Rightarrow> 'n) \<Rightarrow> (pageView \<Rightarrow> 'k) \<Rightarrow> pageView \<Rightarrow> ('n, 'k) TableAggregate
     \<Rightarrow> ('n, 'k) TableAggregate" where
  "insertIfDoesNotExist namespace sortKey doc agg =
     (if (namespace doc, sortKey doc, pv_id doc) \<in> agg then agg
      else insert (namespace doc, sortKey doc, pv_id doc) agg)"

record store =
  pageViews :: "pageView list"
  activeSessions :: "activeSession list"
  pageViewsByPath :: "(string, int) TableAggregate"
  totalPageViews :: "(unit, unit) TableAggregate"
  uniqueVisitors :: "(unit, string) TableAggregate"
  nextId :: doc_id

definition empty_store :: store where
  "empty_store = \<lparr>pageViews = [], activeSessions = [], pageViewsByPath = {},
     totalPageViews = {}, uniqueVisitors = {}, nextId = 0\<rparr>"

text \<open>The three aggregates of lines 21-54: by path (namespace \<open>doc.path\<close>, key
  \<open>doc.timestamp\<close>), total (key \<open>null\<close>) and unique visitors (key \<open>doc.sessionId\<close>).\<close>

definition pageViewsByPath_insert :: "pageView \<Rightarrow> store \<Rightarrow> store" where
  "pageViewsByPath_insert doc s =
     s\<lparr>pageViewsByPath := insertIfDoesNotExist path timestamp doc (pageViewsByPath s)\<rparr>"

definition totalPageViews_insert :: "pageView \<Rightarrow> store \<Rightarrow> store" where
  "totalPageViews_insert doc s =
     s\<lparr>totalPageViews := insertIfDoesNotExist (\<lambda>_. ()) (\<lambda>_. ()) doc (totalPageViews s)\<rparr>"

definition uniqueVisitors_insert :: "pageView \<Rightarrow> store \<Rightarrow> store" where
  "uniqueVisitors_insert doc s =
     s\<lparr>uniqueVisitors := insertIfDoesNotExist (\<lambda>_. ()) sessionId doc (uniqueVisitors s)\<rparr>"

subsection \<open>Database primitives\<close>

text \<open>\<^verbatim>\<open>.first()\<close> of a query: the first document of the scan, or null.\<close>

definition first :: "'a list \<Rightarrow> 'a option" where
  "first xs = (case xs of [] \<Rightarrow> None | x # _ \<Rightarrow> Some x)"

text \<open>Modelled from the spec: the schema (convex/schema.ts) that declares the indexes is not
  part of the sources. Each index is taken to be on the fields its name and its use in
  stats.ts give, with \<^verbatim>\<open>_creationTime\<close> as the final tie-break, as the database does for
  every index: \<open>by_session_path\<close> on (sessionId, path), \<open>by_timestamp\<close> on timestamp,
  \<open>by_sessionId\<close> on sessionId, \<open>by_lastSeen\<close> on lastSeen. A scan with equality on all
  index fields returns the matching documents in creation order.\<close>

definition by_session_path :: "string \<Rightarrow> string \<Rightarrow> pageView list \<Rightarrow> pageView list" where
  "by_session_path sid p views = filter (\<lambda>v. sessionId v = sid \<and> path v = p) views"

text \<open>The scan of \<open>by_session_path\<close> with equality on sessionId only runs in (path,
  creation) order. The source only tests its first document for null, so the order among
  the matching documents is left as creation order here.\<close>

definition by_session :: "string \<Rightarrow> pageView list \<Rightarrow> pageView list" where
  "by_session sid views = filter (\<lambda>v. sessionId v = sid) views"

definition by_timestamp :: "pageView list \<Rightarrow> pageView list" where
  "by_timestamp views = sort_key timestamp views"

definition by_sessionId :: "string \<Rightarrow> activeSession list \<Rightarrow> activeSession list" where
  "by_sessionId sid rows = filter (\<lambda>r. as_sessionId r = sid) rows"

definition by_lastSeen :: "(int \<Rightarrow> bool) \<Rightarrow> activeSession list \<Rightarrow> activeSession list" where
  "by_lastSeen bound rows = sort_key lastSeen (filter (\<lambda>r. bound (lastSeen r)) rows)"

definition insert_pageView :: "string \<Rightarrow> string \<Rightarrow> string \<Rightarrow> int \<Rightarrow> store \<Rightarrow> doc_id \<times> store" where
  "insert_pageView p pt sid ts s =
     (nextId s,
      s\<lparr>pageViews := pageViews s @
           [\<lparr>pv_id = nextId s, path = p, pageType = pt, sessionId = sid, timestamp = ts\<rparr>],
        nextId := Suc (nextId s)\<rparr>)"

definition get_pageView :: "doc_id \<Rightarrow> store \<Rightarrow> pageView option" where
  "get_pageView i s = find (\<lambda>d. pv_id d = i) (pageViews s)"

definition insert_activeSession :: "string \<Rightarrow> string \<Rightarrow> int \<Rightarrow> store \<Rightarrow> doc_id \<times> store" where
  "insert_activeSession sid cp ts s =
     (nextId s,
      s\<lparr>activeSessions := activeSessions s @
           [\<lparr>as_id = nextId s, as_sessionId = sid, currentPath = cp, lastSeen = ts\<rparr>],
        nextId := Suc (nextId s)\<rparr>)"

text \<open>\<^verbatim>\<open>ctx.db.patch\<close> and \<^verbatim>\<open>ctx.db.delete\<close> throw when no document has the given
  identifier, which fails the whole mutation: the result \<open>None\<close>.\<close>

definition patch_activeSession :: "doc_id \<Rightarrow> string \<Rightarrow> int \<Rightarrow> store \<Rightarrow> store option" where
  "patch_activeSession i cp ts s =
     (if i \<in> as_id ` set (activeSessions s)
      then Some (s\<lparr>activeSessions :=
             map (\<lambda>r. if as_id r = i then r\<lparr>currentPath := cp, lastSeen := ts\<rparr> else r)
               (activeSessions s)\<rparr>)
      else None)"

definition delete_activeSession :: "doc_id \<Rightarrow> store \<Rightarrow> store option" where
  "delete_activeSession i s =
     (if i \<in> as_id ` set (activeSessions s)
      then Some (s\<lparr>activeSessions := filter (\<lambda>r. as_id r \<noteq> i) (activeSessions s)\<rparr>)
      else None)"

subsection \<open>recordPageView (lines 61-114)\<close>

definition recordPageView :: "int \<Rightarrow> string \<Rightarrow> string \<Rightarrow> string \<Rightarrow> store \<Rightarrow> store" where
  "recordPageView now p pt sid s =
     (let dedupCutoff = now - DEDUP_WINDOW_MS;
          recentView = first (rev (by_session_path sid p (pageViews s)))
      in if (case recentView of None \<Rightarrow> False | Some v \<Rightarrow> timestamp v > dedupCutoff) then s
         else
           let existingSessionView = first (by_session sid (pageViews s));
               isNewVisitor = (existingSessionView = None);
               (i, s1) = insert_pageView p pt sid now s
           in case get_pageView i s1 of
                None \<Rightarrow> s1
              | Some doc \<Rightarrow>
                  let s2 = pageViewsByPath_insert doc s1;
                      s3 = totalPageViews_insert doc s2
                  in if isNewVisitor then uniqueVisitors_insert doc s3 else s3)"

subsection \<open>heartbeat (lines 121-162)\<close>

definition heartbeat :: "int \<Rightarrow> string \<Rightarrow> string \<Rightarrow> store \<Rightarrow> store option" where
  "heartbeat now sid cp s =
     (case first (by_sessionId sid (activeSessions s)) of
        Some existingSession \<Rightarrow>
          if currentPath existingSession = cp \<and>
             now - lastSeen existingSession < HEARTBEAT_DEDUP_MS
          then Some s
          else patch_activeSession (as_id existingSession) cp now s
      | None \<Rightarrow> Some (snd (insert_activeSession sid cp now s)))"

subsection \<open>getStats (lines 169-297)\<close>

text \<open>The result keeps the fields the properties below are about: \<open>activeVisitors\<close>,
  \<open>totalPageViews\<close>, \<open>uniqueVisitors\<close> (named after the source's local variables
  \<open>totalPageViewsCount\<close> and \<open>uniqueVisitorsCount\<close>, since the store already has aggregates
  of those names) and \<open>trackingSince\<close>. The per-path breakdowns and the post and page counts
  are computed from the same scans and from the posts and pages tables, and are left out:
  the model gives the values the handler computes for the four fields, and says nothing
  about the other fields of the result. The query writes nothing.\<close>

record stats =
  activeVisitors :: nat
  totalPageViewsCount :: nat
  uniqueVisitorsCount :: nat
  trackingSince :: "int option"

definition getStats :: "int \<Rightarrow> store \<Rightarrow> stats" where
  "getStats now s =
     (let sessionCutoff = now - SESSION_TIMEOUT_MS;
          active = by_lastSeen (\<lambda>t. t > sessionCutoff) (activeSessions s);
          allPageViews = pageViews s;
          uniqueSessions = set (map sessionId allPageViews);
          firstView = first (by_timestamp (pageViews s))
      in \<lparr>activeVisitors = length active,
          totalPageViewsCount = length allPageViews,
          uniqueVisitorsCount = card uniqueSessions,
          trackingSince = (case firstView of None \<Rightarrow> None | Some v \<Rightarrow> Some (timestamp v))\<rparr>)"

subsection \<open>cleanupStaleSessions (lines 303-320)\<close>

text \<open>\<^verbatim>\<open>Promise.all\<close> over the deletes: they are issued in the order of the scan, and one
  that throws fails the mutation.\<close>

fun delete_all :: "doc_id list \<Rightarrow> store \<Rightarrow> store option" where
  "delete_all [] s = Some s"
| "delete_all (i # ids) s =
     (case delete_activeSession i s of None \<Rightarrow> None | Some s' \<Rightarrow> delete_all ids s')"

definition cleanupStaleSessions :: "int \<Rightarrow> store \<Rightarrow> (store \<times> nat) option" where
  "cleanupStaleSessions now s =
     (let cutoff = now - SESSION_TIMEOUT_MS;
          staleSessions = by_lastSeen (\<lambda>t. t < cutoff) (activeSessions s)
      in case delete_all (map as_id staleSessions) s of
           None \<Rightarrow> None
         | Some s' \<Rightarrow> Some (s', length staleSessions))"

subsection \<open>backfillAggregates (lines 327-362)\<close>

record backfillResult =
  processed :: nat
  uniqueSessions :: nat

text \<open>The \<^verbatim>\<open>for\<close> loop over \<open>allViews\<close>; its state is the store, \<open>seenSessions\<close> and
  \<open>uniqueCount\<close>.\<close>

fun backfill_loop :: "pageView list \<Rightarrow> store \<times> string set \<times> nat \<Rightarrow> store \<times> string set \<times> nat" where
  "backfill_loop [] st = st"
| "backfill_loop (doc # allViews) (s, seenSessions, uniqueCount) =
     (let s1 = pageViewsByPath_insert doc s;
          s2 = totalPageViews_insert doc s1
      in if sessionId doc \<notin> seenSessions
         then backfill_loop allViews
                (uniqueVisitors_insert doc s2, insert (sessionId doc) seenSessions,
                 uniqueCount + 1)
         else backfill_loop allViews (s2, seenSessions, uniqueCount))"

definition backfillAggregates :: "store \<Rightarrow> store \<times> backfillResult" where
  "backfillAggregates s =
     (let allViews = pageViews s;
          (s', seenSessions, uniqueCount) = backfill_loop allViews (s, {}, 0)
      in (s', \<lparr>processed = length allViews, uniqueSessions = uniqueCount\<rparr>))"

subsection \<open>Sequences of calls\<close>

text \<open>A call is one of the five exported functions with its arguments; it runs at the time
  \<^verbatim>\<open>Date.now()\<close> returns. A mutation is a transaction: when it throws, nothing is kept and
  the run stops (\<open>None\<close>). \<open>getStats\<close> is a query and leaves the store as it is.\<close>

datatype call =
    RecordPageView string string string
  | Heartbeat string string
  | GetStats
  | CleanupStaleSessions
  | BackfillAggregates

fun step :: "int \<Rightarrow> call \<Rightarrow> store \<Rightarrow> store option" where
  "step now (RecordPageView p pt sid) s = Some (recordPageView now p pt sid s)"
| "step now (Heartbeat sid cp) s = heartbeat now sid cp s"
| "step now GetStats s = Some s"
| "step now CleanupStaleSessions s = map_option fst (cleanupStaleSessions now s)"
| "step now BackfillAggregates s = Some (fst (backfillAggregates s))"

fun exec :: "store \<Rightarrow> (int \<times> call) list \<Rightarrow> store option" where
  "exec s [] = Some s"
| "exec s ((now, c) # cs) = (case step now c s of None \<Rightarrow> None | Some s' \<Rightarrow> exec s' cs)"

text \<open>The document identifiers an aggregate holds.\<close>

definition agg_ids :: "('n, 'k) TableAggregate \<Rightarrow> doc_id set" where
  "agg_ids agg = (\<lambda>e. snd (snd e)) ` agg"

text \<open>The states the database can be in: identifiers are unique within a table and were
  handed out by the counter, and the aggregates only hold identifiers handed out before.\<close>

definition wf_store :: "store \<Rightarrow> bool" where
  "wf_store s \<longleftrightarrow>
     distinct (map pv_id (pageViews s)) \<and>
     distinct (map as_id (activeSessions s)) \<and>
     (\<forall>i \<in> set (map pv_id (pageViews s)). i < nextId s) \<and>
     (\<forall>i \<in> set (map as_id (activeSessions s)). i < nextId s) \<and>
     (\<forall>i \<in> agg_ids (pageViewsByPath s). i < nextId s) \<and>
     (\<forall>i \<in> agg_ids (totalPageViews s). i < nextId s) \<and>
     (\<forall>i \<in> agg_ids (uniqueVisitors s). i < nextId s)"

text \<open>Two views, the first stored before the second, are spaced when they are of different
  sessions or paths, or at least the deduplication window apart. The invariant of the event
  log at clock \<open>t\<close>: timestamps do not decrease along the log and none is later than \<open>t\<close>, and
  every earlier view is spaced from every later one.\<close>

definition spaced :: "pageView \<Rightarrow> pageView \<Rightarrow> bool" where
  "spaced u v \<longleftrightarrow>
     (sessionId u = sessionId v \<and> path u = path v \<longrightarrow>
        DEDUP_WINDOW_MS \<le> timestamp v - timestamp u)"

definition dedup_inv :: "int \<Rightarrow> pageView list \<Rightarrow> bool" where
  "dedup_inv t views \<longleftrightarrow>
     sorted (map timestamp views) \<and> (\<forall>v \<in> set views. timestamp v \<le> t) \<and>
     sorted_wrt spaced views"

text \<open>The views a backfill hands to the unique-visitor aggregate, given the sessions
  seen so far: the first view of every session not seen before. (Used to state what the
  loop computes.)\<close>

fun firstViews :: "string set \<Rightarrow> pageView list \<Rightarrow> pageView list" where
  "firstViews seen [] = []"
| "firstViews seen (d # ds) =
     (if sessionId d \<in> seen then firstViews seen ds
      else d # firstViews (insert (sessionId d) seen) ds)"

text \<open>The invariant of the unique-visitor aggregate: it holds exactly the first stored view
  of every session.\<close>

definition uv_inv :: "store \<Rightarrow> bool" where
  "uv_inv s \<longleftrightarrow> uniqueVisitors s =
     (\<lambda>d. ((), sessionId d, pv_id d)) ` set (firstViews {} (pageViews s))"

section \<open>Raw markdown function: netlify/functions/raw.js\<close>

text \<open>A JavaScript string is a sequence of UTF-16 code units.\<close>

type_synonym jsstring = "nat list"

definition js :: "string \<Rightarrow> jsstring" where
  "js s = map of_char s"

text \<open>The characters \<^verbatim>\<open>String.prototype.trim\<close> removes: ECMAScript white space (TAB, VT,
  FF, the space separators, U+FEFF) and line terminators (LF, CR, U+2028, U+2029).\<close>

definition isWhiteSpace :: "nat \<Rightarrow> bool" where
  "isWhiteSpace c \<longleftrightarrow>
     c = 9 \<or> c = 10 \<or> c = 11 \<or> c = 12 \<or> c = 13 \<or> c = 32 \<or> c = 160 \<or> c = 5760 \<or>
     (8192 \<le> c \<and> c \<le> 8202) \<or> c = 8232 \<or> c = 8233 \<or> c = 8239 \<or> c = 8287 \<or>
     c = 12288 \<or> c = 65279"

definition trim :: "jsstring \<Rightarrow> jsstring" where
  "trim s = rev (dropWhile isWhiteSpace (rev (dropWhile isWhiteSpace s)))"

text \<open>\<^verbatim>\<open>.replace(/^\/+|\/+$/g, "")\<close>: the run of slashes (code unit 47) at the start and the
  run at the end are removed.\<close>

definition stripSlashes :: "jsstring \<Rightarrow> jsstring" where
  "stripSlashes s = rev (dropWhile (\<lambda>c. c = 47) (rev (dropWhile (\<lambda>c. c = 47) s)))"

text \<open>The argument is \<open>None\<close> for \<^verbatim>\<open>undefined\<close> or \<^verbatim>\<open>null\<close>; \<^verbatim>\<open>input || ""\<close> also
  replaces the empty string, by itself.\<close>

definition normalizeSlug :: "jsstring option \<Rightarrow> jsstring" where
  "normalizeSlug input = stripSlashes (trim (case input of None \<Rightarrow> [] | Some i \<Rightarrow> i))"

text \<open>The file system as the function sees it: no entry (\<^verbatim>\<open>existsSync\<close> is false), an entry
  whose read throws (a directory, a file without permission), or a file with its text.\<close>

datatype fs_entry = Contents jsstring | ReadThrows

type_synonym filesystem = "jsstring \<Rightarrow> fs_entry option"

definition tryRead :: "filesystem \<Rightarrow> jsstring \<Rightarrow> jsstring option" where
  "tryRead files p =
     (case files p of
        None \<Rightarrow> None
      | Some ReadThrows \<Rightarrow> None
      | Some (Contents body) \<Rightarrow>
          if body = [] \<or> length (trim body) = 0 then None else Some body)"

text \<open>Node's \<^verbatim>\<open>path.join\<close> for POSIX paths (the \<^verbatim>\<open>path\<close> module of the runtime, not
  part of the sources). \<^verbatim>\<open>join\<close> puts a slash between its non-empty arguments and
  normalises the result; \<^verbatim>\<open>normalize\<close> works on the segments between slashes: empty
  segments and \<open>.\<close> are dropped, \<open>..\<close> removes the segment before it when there is one that
  is not itself \<open>..\<close>, and is otherwise kept for a relative path and dropped for an absolute
  one; every other segment is kept. A slash at the start (absolute path) and a slash at the
  end are preserved.\<close>

fun split_slash :: "jsstring \<Rightarrow> jsstring list" where
  "split_slash [] = [[]]"
| "split_slash (c # cs) =
     (if c = 47 then [] # split_slash cs
      else (case split_slash cs of [] \<Rightarrow> [[c]] | seg # segs \<Rightarrow> (c # seg) # segs))"

fun join_segments :: "jsstring list \<Rightarrow> jsstring" where
  "join_segments [] = []"
| "join_segments [s] = s"
| "join_segments (s # t # ss) = s @ 47 # join_segments (t # ss)"

definition normalize_segment :: "bool \<Rightarrow> jsstring list \<Rightarrow> jsstring \<Rightarrow> jsstring list" where
  "normalize_segment allowAboveRoot res seg =
     (if seg = [] \<or> seg = js ''.'' then res
      else if seg = js ''..'' then
        (if res \<noteq> [] \<and> last res \<noteq> js ''..'' then butlast res
         else if allowAboveRoot then res @ [js ''..''] else res)
      else res @ [seg])"

definition normalizeString :: "jsstring \<Rightarrow> bool \<Rightarrow> jsstring" where
  "normalizeString p allowAboveRoot =
     join_segments (foldl (normalize_segment allowAboveRoot) [] (split_slash p))"

definition normalize :: "jsstring \<Rightarrow> jsstring" where
  "normalize p =
     (if p = [] then js ''.''
      else
        let isAbsolute = (hd p = 47);
            trailingSeparator = (last p = 47);
            q = normalizeString p (\<not> isAbsolute)
        in if q = [] then
             (if isAbsolute then js ''/'' else if trailingSeparator then js ''./'' else js ''.'')
           else
             let q' = (if trailingSeparator then q @ [47] else q)
             in if isAbsolute then 47 # q' else q')"

definition path_join :: "jsstring list \<Rightarrow> jsstring" where
  "path_join args =
     (case filter (\<lambda>arg. arg \<noteq> []) args of
        [] \<Rightarrow> js ''.''
      | parts \<Rightarrow> normalize (join_segments parts))"

text \<open>The surroundings of a call: the working directory (\<^verbatim>\<open>process.cwd()\<close>) and the file
  system.\<close>

record environment =
  cwd :: jsstring
  fs :: filesystem

record event =
  queryStringParameters :: "(jsstring \<Rightarrow> jsstring option) option"

record response =
  statusCode :: nat
  headers :: "(string \<times> string) list"
  body :: jsstring

definition endsWith :: "jsstring \<Rightarrow> jsstring \<Rightarrow> bool" where
  "endsWith s t \<longleftrightarrow> length t \<le> length s \<and> drop (length s - length t) s = t"

text \<open>The loop over the candidates: the first that reads is kept.\<close>

fun readCandidates :: "filesystem \<Rightarrow> jsstring list \<Rightarrow> jsstring option" where
  "readCandidates files [] = None"
| "readCandidates files (p # ps) =
     (case tryRead files p of Some b \<Rightarrow> Some b | None \<Rightarrow> readCandidates files ps)"

definition handler :: "environment \<Rightarrow> event \<Rightarrow> response" where
  "handler env ev =
     (let slugRaw = (case queryStringParameters ev of None \<Rightarrow> None | Some q \<Rightarrow> q (js ''slug''));
          slug = normalizeSlug slugRaw
      in if slug = [] then
           \<lparr>statusCode = 400,
            headers = [(''Content-Type'', ''text/plain; charset=utf-8''),
                       (''Access-Control-Allow-Origin'', ''*'')],
            body = js ''missing slug''\<rparr>
         else
           let filename = (if endsWith slug (js ''.md'') then slug else slug @ js ''.md'');
               root = cwd env;
               candidates = [path_join [root, js ''public'', js ''raw'', filename],
                             path_join [root, js ''dist'', js ''raw'', filename]]
           in case readCandidates (fs env) candidates of
                None \<Rightarrow>
                  \<lparr>statusCode = 404,
                   headers = [(''Content-Type'', ''text/plain; charset=utf-8''),
                              (''Access-Control-Allow-Origin'', ''*'')],
                   body = js ''not found: '' @ filename\<rparr>
              | Some b \<Rightarrow>
                  \<lparr>statusCode = 200,
                   headers = [(''Content-Type'', ''text/plain; charset=utf-8''),
                              (''Access-Control-Allow-Origin'', ''*''),
                              (''Cache-Control'', ''public, max-age=3600'')],
                   body = b\<rparr>)"

text \<open>A file the function can serve: it exists, reading it succeeds, and its text has a
  character that is not white space. (Used to state when the function answers 200.)\<close>

definition servable :: "filesystem \<Rightarrow> jsstring \<Rightarrow> jsstring option" where
  "servable files p =
     (case files p of
        Some (Contents b) \<Rightarrow> if \<exists>c \<in> set b. \<not> isWhiteSpace c then Some b else None
      | _ \<Rightarrow> None)"

text \<open>A segment of a path that \<^verbatim>\<open>path.join\<close> keeps as it is.\<close>

definition plain_segment :: "jsstring \<Rightarrow> bool" where
  "plain_segment seg \<longleftrightarrow> seg \<noteq> [] \<and> seg \<noteq> js ''.''"

text \<open>Example surroundings: the working directory \<open>/app\<close> and a file system given as a list
  of paths with their entries.\<close>

definition example_env :: "(string \<times> fs_entry) list \<Rightarrow> environment" where
  "example_env files =
     \<lparr>cwd = js ''/app'', fs = map_of (map (\<lambda>(p, e). (js p, e)) files)\<rparr>"

definition example_event :: "string \<Rightarrow> event" where
  "example_event slug = \<lparr>queryStringParameters = Some [js ''slug'' \<mapsto> js slug]\<rparr>"

section \<open>Basic facts\<close>

lemma recent_last:
  assumes "sessionId v = sid" "path v = p" "\<forall>u\<in>set ys. \<not> (sessionId u = sid \<and> path u = p)"
  shows "first (rev (by_session_path sid p (xs @ v # ys))) = Some v"
  using assms by (simp add: by_session_path_def first_def)

lemma recent_none:
  assumes "\<forall>u\<in>set views. \<not> (sessionId u = sid \<and> path u = p)"
  shows "first (rev (by_session_path sid p views)) = None"
  using assms by (simp add: by_session_path_def first_def)

lemma pageViews_inserted:
  "pageViews (case get_pageView i s1 of None \<Rightarrow> s1
     | Some doc \<Rightarrow> let s2 = pageViewsByPath_insert doc s1; s3 = totalPageViews_insert doc s2
                  in if b then uniqueVisitors_insert doc s3 else s3) = pageViews s1"
  by (simp add: pageViewsByPath_insert_def totalPageViews_insert_def uniqueVisitors_insert_def Let_def split: option.splits)

lemma nextId_inserted:
  "nextId (case get_pageView i s1 of None \<Rightarrow> s1
     | Some doc \<Rightarrow> let s2 = pageViewsByPath_insert doc s1; s3 = totalPageViews_insert doc s2
                  in if b then uniqueVisitors_insert doc s3 else s3) = nextId s1"
  by (simp add: pageViewsByPath_insert_def totalPageViews_insert_def uniqueVisitors_insert_def Let_def split: option.splits)

lemma recordPageView_skip:
  assumes "first (rev (by_session_path sid p (pageViews s))) = Some v" "now - timestamp v < DEDUP_WINDOW_MS"
  shows "recordPageView now p pt sid s = s"
  using assms by (simp add: recordPageView_def Let_def)

lemma recordPageView_insert_Some:
  assumes "first (rev (by_session_path sid p (pageViews s))) = Some v" "\<not> now - timestamp v < DEDUP_WINDOW_MS"
  shows "pageViews (recordPageView now p pt sid s) = pageViews s @ [\<lparr>pv_id = nextId s, path = p, pageType = pt, sessionId = sid, timestamp = now\<rparr>]"
  using assms by (simp add: recordPageView_def Let_def insert_pageView_def pageViews_inserted)

lemma recordPageView_insert_None:
  assumes "first (rev (by_session_path sid p (pageViews s))) = None" 
  shows "pageViews (recordPageView now p pt sid s) = pageViews s @ [\<lparr>pv_id = nextId s, path = p, pageType = pt, sessionId = sid, timestamp = now\<rparr>]"
  using assms by (simp add: recordPageView_def Let_def insert_pageView_def pageViews_inserted)


lemma first_Cons: "first (x # xs) = Some x"
  by (simp add: first_def)

lemma first_eq_None: "first xs = None \<longleftrightarrow> xs = []"
  by (cases xs) (simp_all add: first_def)

lemma first_rev_filter_decomp:
  "first (rev (filter P xs)) = Some v \<Longrightarrow>
     \<exists>ys zs. xs = ys @ v # zs \<and> P v \<and> (\<forall>u\<in>set zs. \<not> P u)"
proof (induction xs rule: rev_induct)
  case Nil
  then show ?case by (simp add: first_def)
next
  case (snoc x xs)
  show ?case
  proof (cases "P x")
    case True
    with snoc.prems have "v = x" by (simp add: first_def)
    with True have "xs @ [x] = xs @ v # [] \<and> P v \<and> (\<forall>u\<in>set []. \<not> P u)" by simp
    then show ?thesis by blast
  next
    case False
    with snoc.prems have "first (rev (filter P xs)) = Some v" by simp
    from snoc.IH [OF this] obtain ys zs where
      d: "xs = ys @ v # zs" "P v" "\<forall>u\<in>set zs. \<not> P u" by blast
    with False have "xs @ [x] = ys @ v # (zs @ [x]) \<and> P v \<and> (\<forall>u\<in>set (zs @ [x]). \<not> P u)"
      by simp
    then show ?thesis by blast
  qed
qed

lemma insertIfDoesNotExist_eq:
  "insertIfDoesNotExist ns sk d A = insert (ns d, sk d, pv_id d) A"
  by (auto simp: insertIfDoesNotExist_def)

lemma find_fresh:
  assumes "list_all (\<lambda>d. pv_id d < n) views" "pv_id e = n"
  shows "find (\<lambda>d. pv_id d = n) (views @ [e]) = Some e"
  using assms by (induction views) auto

lemma recordPageView_eq:
  assumes "list_all (\<lambda>d. pv_id d < nextId s) (pageViews s)"
  shows "recordPageView now p pt sid s =
     (if (case first (rev (by_session_path sid p (pageViews s))) of None \<Rightarrow> False
          | Some v \<Rightarrow> timestamp v > now - DEDUP_WINDOW_MS) then s
      else s\<lparr>pageViews := pageViews s @
                [\<lparr>pv_id = nextId s, path = p, pageType = pt, sessionId = sid, timestamp = now\<rparr>],
             pageViewsByPath := insert (p, now, nextId s) (pageViewsByPath s),
             totalPageViews := insert ((), (), nextId s) (totalPageViews s),
             uniqueVisitors := (if by_session sid (pageViews s) = []
                                then insert ((), sid, nextId s) (uniqueVisitors s)
                                else uniqueVisitors s),
             nextId := Suc (nextId s)\<rparr>)"
proof -
  let ?e = "\<lparr>pv_id = nextId s, path = p, pageType = pt, sessionId = sid, timestamp = now\<rparr>"
  have g: "get_pageView (nextId s) (s\<lparr>pageViews := pageViews s @ [?e], nextId := Suc (nextId s)\<rparr>)
             = Some ?e"
    using find_fresh [OF assms, of ?e] by (simp add: get_pageView_def)
  show ?thesis
    by (simp add: recordPageView_def Let_def insert_pageView_def g first_eq_None
        pageViewsByPath_insert_def totalPageViews_insert_def uniqueVisitors_insert_def
        insertIfDoesNotExist_eq)
qed

lemma first_filter_Some:
  "first (filter P xs) = Some r \<Longrightarrow> r \<in> set xs \<and> P r"
proof -
  assume a: "first (filter P xs) = Some r"
  then obtain ys where "filter P xs = r # ys"
    by (cases "filter P xs") (simp_all add: first_def)
  then have "r \<in> set (filter P xs)" by simp
  then show ?thesis by simp
qed

lemma first_filter_None:
  "first (filter P xs) = None \<longleftrightarrow> (\<forall>x\<in>set xs. \<not> P x)"
  by (simp add: first_eq_None filter_empty_conv)

subsection \<open>Effect of each operation\<close>

lemma recordPageView_pageViews:
  "pageViews (recordPageView now p pt sid s) =
     (if (case first (rev (by_session_path sid p (pageViews s))) of None \<Rightarrow> False
          | Some v \<Rightarrow> timestamp v > now - DEDUP_WINDOW_MS) then pageViews s
      else pageViews s @
             [\<lparr>pv_id = nextId s, path = p, pageType = pt, sessionId = sid, timestamp = now\<rparr>])"
  by (simp add: recordPageView_def Let_def insert_pageView_def pageViews_inserted)

lemma activeSessions_inserted:
  "activeSessions (case get_pageView i s1 of None \<Rightarrow> s1
     | Some doc \<Rightarrow> let s2 = pageViewsByPath_insert doc s1; s3 = totalPageViews_insert doc s2
                  in if b then uniqueVisitors_insert doc s3 else s3) = activeSessions s1"
  by (simp add: pageViewsByPath_insert_def totalPageViews_insert_def uniqueVisitors_insert_def
      Let_def split: option.splits)

lemma recordPageView_activeSessions:
  "activeSessions (recordPageView now p pt sid s) = activeSessions s"
  by (simp add: recordPageView_def Let_def insert_pageView_def activeSessions_inserted)

lemma heartbeat_new:
  assumes "first (by_sessionId sid (activeSessions s)) = None"
  shows "heartbeat now sid cp s =
     Some (s\<lparr>activeSessions := activeSessions s @
               [\<lparr>as_id = nextId s, as_sessionId = sid, currentPath = cp, lastSeen = now\<rparr>],
             nextId := Suc (nextId s)\<rparr>)"
  using assms by (simp add: heartbeat_def insert_activeSession_def)

lemma heartbeat_existing:
  assumes "first (by_sessionId sid (activeSessions s)) = Some r"
  shows "heartbeat now sid cp s =
     (if currentPath r = cp \<and> now - lastSeen r < HEARTBEAT_DEDUP_MS then Some s
      else Some (s\<lparr>activeSessions :=
             map (\<lambda>x. if as_id x = as_id r then x\<lparr>currentPath := cp, lastSeen := now\<rparr> else x)
               (activeSessions s)\<rparr>))"
proof -
  from assms have "r \<in> set (activeSessions s)"
    using first_filter_Some [of "\<lambda>r. as_sessionId r = sid" "activeSessions s" r]
    by (simp add: by_sessionId_def)
  then show ?thesis
    using assms by (simp add: heartbeat_def patch_activeSession_def)
qed

lemma delete_all_eq:
  assumes "distinct ids" "set ids \<subseteq> as_id ` set (activeSessions s)"
  shows "delete_all ids s =
     Some (s\<lparr>activeSessions := filter (\<lambda>r. as_id r \<notin> set ids) (activeSessions s)\<rparr>)"
  using assms
proof (induction ids arbitrary: s)
  case Nil
  then show ?case by simp
next
  case (Cons i ids)
  let ?s1 = "s\<lparr>activeSessions := filter (\<lambda>r. as_id r \<noteq> i) (activeSessions s)\<rparr>"
  from Cons.prems have d: "delete_activeSession i s = Some ?s1"
    by (simp add: delete_activeSession_def)
  from Cons.prems have di: "distinct ids" and ni: "i \<notin> set ids" by simp_all
  have "set ids \<subseteq> as_id ` set (activeSessions ?s1)"
  proof
    fix x assume x: "x \<in> set ids"
    with Cons.prems obtain r where "r \<in> set (activeSessions s)" "as_id r = x" by auto
    moreover from x ni have "x \<noteq> i" by auto
    ultimately show "x \<in> as_id ` set (activeSessions ?s1)" by force
  qed
  note di this
  from Cons.IH [OF this] have "delete_all ids ?s1 =
     Some (?s1\<lparr>activeSessions := filter (\<lambda>r. as_id r \<notin> set ids) (activeSessions ?s1)\<rparr>)" .
  moreover have "filter (\<lambda>r. as_id r \<notin> set ids) (filter (\<lambda>r. as_id r \<noteq> i) (activeSessions s))
      = filter (\<lambda>r. as_id r \<notin> set (i # ids)) (activeSessions s)"
    by (auto intro: filter_cong)
  ultimately show ?case using d by simp
qed

lemma cleanupStaleSessions_eq:
  assumes "distinct (map as_id (activeSessions s))"
  shows "cleanupStaleSessions now s =
     Some (s\<lparr>activeSessions :=
              filter (\<lambda>r. \<not> lastSeen r < now - SESSION_TIMEOUT_MS) (activeSessions s)\<rparr>,
           length (filter (\<lambda>r. lastSeen r < now - SESSION_TIMEOUT_MS) (activeSessions s)))"
proof -
  let ?stale = "\<lambda>r. lastSeen r < now - SESSION_TIMEOUT_MS"
  let ?scan = "by_lastSeen (\<lambda>t. t < now - SESSION_TIMEOUT_MS) (activeSessions s)"
  have set_scan: "set ?scan = {r \<in> set (activeSessions s). ?stale r}"
    by (auto simp: by_lastSeen_def)
  from assms have inj: "inj_on as_id (set (activeSessions s))" and dist: "distinct (activeSessions s)"
    by (simp_all add: distinct_map)
  have "distinct ?scan" using dist by (simp add: by_lastSeen_def)
  moreover have "inj_on as_id (set ?scan)"
    using inj set_scan by (auto intro: inj_on_subset)
  ultimately have d: "distinct (map as_id ?scan)" by (simp add: distinct_map)
  have sub: "set (map as_id ?scan) \<subseteq> as_id ` set (activeSessions s)"
    using set_scan by auto
  have keep: "filter (\<lambda>r. as_id r \<notin> set (map as_id ?scan)) (activeSessions s)
      = filter (\<lambda>r. \<not> ?stale r) (activeSessions s)"
  proof (rule filter_cong [OF refl])
    fix r assume r: "r \<in> set (activeSessions s)"
    show "(as_id r \<notin> set (map as_id ?scan)) = (\<not> ?stale r)"
      using r inj set_scan by (auto dest: inj_onD)
  qed
  have len: "length ?scan = length (filter ?stale (activeSessions s))"
    by (simp add: by_lastSeen_def)
  show ?thesis
    using delete_all_eq [OF d sub] keep len by (simp add: cleanupStaleSessions_def Let_def)
qed

lemma backfill_loop_eq:
  "backfill_loop vs (s, seen, cnt) =
     (s\<lparr>pageViewsByPath := pageViewsByPath s \<union> (\<lambda>d. (path d, timestamp d, pv_id d)) ` set vs,
        totalPageViews := totalPageViews s \<union> (\<lambda>d. ((), (), pv_id d)) ` set vs,
        uniqueVisitors := uniqueVisitors s \<union>
           (\<lambda>d. ((), sessionId d, pv_id d)) ` set (firstViews seen vs)\<rparr>,
      seen \<union> sessionId ` set vs, cnt + length (firstViews seen vs))"
proof (induction vs arbitrary: s seen cnt)
  case Nil
  then show ?case by simp
next
  case (Cons d vs)
  show ?case
    by (simp add: Cons.IH Let_def pageViewsByPath_insert_def totalPageViews_insert_def
        uniqueVisitors_insert_def insertIfDoesNotExist_eq insert_absorb)
qed

subsection \<open>Well-formed stores\<close>

lemma agg_ids_empty: "agg_ids {} = {}"
  by (simp add: agg_ids_def)

lemma agg_ids_insert: "agg_ids (insert (n, k, i) A) = insert i (agg_ids A)"
  by (simp add: agg_ids_def)

lemma agg_ids_Un: "agg_ids (A \<union> B) = agg_ids A \<union> agg_ids B"
  by (simp add: agg_ids_def image_Un)

lemma agg_ids_image: "agg_ids ((\<lambda>d. (f d, g d, pv_id d)) ` D) = pv_id ` D"
  by (simp add: agg_ids_def image_image)

lemma wf_empty_store: "wf_store empty_store"
  by (simp add: wf_store_def empty_store_def agg_ids_empty)

lemma wf_fresh_pageView:
  "wf_store s \<Longrightarrow> list_all (\<lambda>d. pv_id d < nextId s) (pageViews s)"
  by (simp add: wf_store_def list_all_iff)

lemma wf_recordPageView:
  assumes "wf_store s"
  shows "wf_store (recordPageView now p pt sid s)"
proof -
  from assms have "nextId s \<notin> set (map pv_id (pageViews s))" by (auto simp: wf_store_def)
  with assms show ?thesis
    unfolding recordPageView_eq [OF wf_fresh_pageView [OF assms]]
    by (auto simp add: wf_store_def agg_ids_insert less_SucI simp del: set_map)
qed

lemma patch_ids:
  "map as_id (map (\<lambda>x. if as_id x = i then x\<lparr>currentPath := cp, lastSeen := now\<rparr> else x) rows)
     = map as_id rows"
  by (induction rows) simp_all

lemma patch_sessionIds:
  "map as_sessionId
     (map (\<lambda>x. if as_id x = i then x\<lparr>currentPath := cp, lastSeen := now\<rparr> else x) rows)
     = map as_sessionId rows"
  by (induction rows) simp_all

lemma heartbeat_total:
  "\<exists>s'. heartbeat now sid cp s = Some s'"
proof (cases "first (by_sessionId sid (activeSessions s))")
  case None
  then show ?thesis by (simp add: heartbeat_new)
next
  case (Some r)
  then show ?thesis by (simp add: heartbeat_existing)
qed

lemma wf_heartbeat:
  assumes "wf_store s" "heartbeat now sid cp s = Some s'"
  shows "wf_store s'"
proof (cases "first (by_sessionId sid (activeSessions s))")
  case None
  from assms have "nextId s \<notin> set (map as_id (activeSessions s))" by (auto simp: wf_store_def)
  moreover from None assms(2) have "s' = s\<lparr>activeSessions := activeSessions s @
               [\<lparr>as_id = nextId s, as_sessionId = sid, currentPath = cp, lastSeen = now\<rparr>],
             nextId := Suc (nextId s)\<rparr>"
    by (simp add: heartbeat_new)
  ultimately show ?thesis
    using assms(1) by (auto simp add: wf_store_def less_SucI simp del: set_map)
next
  case (Some r)
  let ?rows = "map (\<lambda>x. if as_id x = as_id r then x\<lparr>currentPath := cp, lastSeen := now\<rparr> else x)
               (activeSessions s)"
  from Some assms(2) have "s' = s \<or> s' = s\<lparr>activeSessions := ?rows\<rparr>"
    by (simp add: heartbeat_existing split: if_splits)
  then show ?thesis
  proof
    assume "s' = s" with assms(1) show ?thesis by simp
  next
    assume "s' = s\<lparr>activeSessions := ?rows\<rparr>"
    with assms(1) show ?thesis
      by (simp add: wf_store_def patch_ids del: set_map map_map)
  qed
qed

lemma wf_cleanupStaleSessions:
  assumes "wf_store s" "cleanupStaleSessions now s = Some (s', n)"
  shows "wf_store s'"
proof -
  from assms(1) have d: "distinct (map as_id (activeSessions s))"
    by (simp add: wf_store_def)
  from assms(2) have "s' = s\<lparr>activeSessions :=
              filter (\<lambda>r. \<not> lastSeen r < now - SESSION_TIMEOUT_MS) (activeSessions s)\<rparr>"
    unfolding cleanupStaleSessions_eq [OF d] by simp
  with assms(1) show ?thesis
    by (simp add: wf_store_def distinct_map_filter)
qed

lemma backfillAggregates_eq:
  "fst (backfillAggregates s) =
     s\<lparr>pageViewsByPath := pageViewsByPath s \<union>
          (\<lambda>d. (path d, timestamp d, pv_id d)) ` set (pageViews s),
        totalPageViews := totalPageViews s \<union> (\<lambda>d. ((), (), pv_id d)) ` set (pageViews s),
        uniqueVisitors := uniqueVisitors s \<union>
           (\<lambda>d. ((), sessionId d, pv_id d)) ` set (firstViews {} (pageViews s))\<rparr>"
  by (simp add: backfillAggregates_def Let_def backfill_loop_eq)

lemma set_firstViews: "set (firstViews seen vs) \<subseteq> set vs"
  by (induction vs arbitrary: seen) auto

lemma wf_backfillAggregates:
  assumes "wf_store s"
  shows "wf_store (fst (backfillAggregates s))"
proof -
  have "pv_id ` set (firstViews {} (pageViews s)) \<subseteq> pv_id ` set (pageViews s)"
    using set_firstViews [of "{}" "pageViews s"] by (rule image_mono)
  with assms show ?thesis
    unfolding backfillAggregates_eq
    by (auto simp: wf_store_def agg_ids_Un agg_ids_image)
qed

lemma wf_step:
  assumes "wf_store s" "step now c s = Some s'"
  shows "wf_store s'"
proof (cases c)
  case (RecordPageView p pt sid)
  with assms show ?thesis using wf_recordPageView by auto
next
  case (Heartbeat sid cp)
  with assms show ?thesis using wf_heartbeat by auto
next
  case GetStats
  with assms show ?thesis by auto
next
  case CleanupStaleSessions
  with assms show ?thesis using wf_cleanupStaleSessions by auto
next
  case BackfillAggregates
  with assms show ?thesis using wf_backfillAggregates by auto
qed

lemma step_total:
  assumes "wf_store s"
  shows "\<exists>s'. step now c s = Some s'"
proof (cases c)
  case (Heartbeat sid cp)
  then show ?thesis using heartbeat_total by simp
next
  case CleanupStaleSessions
  from assms have "distinct (map as_id (activeSessions s))" by (simp add: wf_store_def)
  with CleanupStaleSessions show ?thesis by (simp add: cleanupStaleSessions_eq)
qed simp_all

lemma exec_wf:
  assumes "wf_store s" "exec s calls = Some s'"
  shows "wf_store s'"
  using assms
proof (induction calls arbitrary: s)
  case Nil
  then show ?case by simp
next
  case (Cons c calls)
  obtain now k where c: "c = (now, k)" by (cases c)
  with Cons.prems obtain s1 where s1: "step now k s = Some s1" "exec s1 calls = Some s'"
    by (auto split: option.splits)
  from wf_step [OF Cons.prems(1) s1(1)] s1(2) show ?case by (rule Cons.IH)
qed

lemma exec_total:
  assumes "wf_store s"
  shows "\<exists>s'. exec s calls = Some s'"
  using assms
proof (induction calls arbitrary: s)
  case Nil
  then show ?case by simp
next
  case (Cons c calls)
  obtain now k where c: "c = (now, k)" by (cases c)
  from step_total [OF Cons.prems] obtain s1 where s1: "step now k s = Some s1" by blast
  from Cons.IH [OF wf_step [OF Cons.prems s1]] obtain s' where "exec s1 calls = Some s'" by blast
  with c s1 show ?case by simp
qed

subsection \<open>Invariants along a run\<close>

lemma exec_invariant:
  assumes "I s"
    and "\<And>now c s s'. I s \<Longrightarrow> step now c s = Some s' \<Longrightarrow> I s'"
    and "exec s calls = Some s'"
  shows "I s'"
  using assms(1,3)
proof (induction calls arbitrary: s)
  case Nil
  then show ?case by simp
next
  case (Cons c calls)
  obtain now k where c: "c = (now, k)" by (cases c)
  with Cons.prems obtain s1 where s1: "step now k s = Some s1" "exec s1 calls = Some s'"
    by (auto split: option.splits)
  from assms(2) [OF Cons.prems(1) s1(1)] s1(2) show ?case by (rule Cons.IH)
qed

lemma step_pageViews:
  assumes "wf_store s" "step now c s = Some s'" "\<forall>p pt sid. c \<noteq> RecordPageView p pt sid"
  shows "pageViews s' = pageViews s"
proof (cases c)
  case (RecordPageView p pt sid)
  with assms(3) show ?thesis by simp
next
  case (Heartbeat sid cp)
  show ?thesis
  proof (cases "first (by_sessionId sid (activeSessions s))")
    case None
    with assms(2) Heartbeat show ?thesis by (auto simp: heartbeat_new)
  next
    case (Some r)
    with assms(2) Heartbeat show ?thesis by (auto simp: heartbeat_existing split: if_splits)
  qed
next
  case GetStats
  with assms(2) show ?thesis by simp
next
  case CleanupStaleSessions
  from assms(1) have "distinct (map as_id (activeSessions s))" by (simp add: wf_store_def)
  with assms(2) CleanupStaleSessions show ?thesis by (auto simp: cleanupStaleSessions_eq)
next
  case BackfillAggregates
  with assms(2) show ?thesis by (auto simp: backfillAggregates_eq)
qed

lemma dedup_inv_mono: "dedup_inv t views \<Longrightarrow> t \<le> t' \<Longrightarrow> dedup_inv t' views"
  by (fastforce simp: dedup_inv_def)

lemma dedup_inv_recordPageView:
  assumes inv: "dedup_inv t (pageViews s)" and t: "t \<le> now"
  shows "dedup_inv now (pageViews (recordPageView now p pt sid s))"
proof (cases "first (rev (by_session_path sid p (pageViews s)))")
  case None
  let ?e = "\<lparr>pv_id = nextId s, path = p, pageType = pt, sessionId = sid, timestamp = now\<rparr>"
  from None have no: "\<forall>u\<in>set (pageViews s). \<not> (sessionId u = sid \<and> path u = p)"
    by (simp add: by_session_path_def first_eq_None filter_empty_conv)
  then have "\<forall>u\<in>set (pageViews s). spaced u ?e" by (auto simp: spaced_def)
  with inv t None show ?thesis
    by (fastforce simp: recordPageView_pageViews dedup_inv_def sorted_append sorted_wrt_append)
next
  case (Some r)
  show ?thesis
  proof (cases "timestamp r > now - DEDUP_WINDOW_MS")
    case True
    with Some inv t show ?thesis
      by (simp add: recordPageView_pageViews dedup_inv_mono)
  next
    case False
    let ?e = "\<lparr>pv_id = nextId s, path = p, pageType = pt, sessionId = sid, timestamp = now\<rparr>"
    from Some obtain ys zs where d: "pageViews s = ys @ r # zs"
      "\<forall>u\<in>set zs. \<not> (sessionId u = sid \<and> path u = p)"
      using first_rev_filter_decomp [of "\<lambda>v. sessionId v = sid \<and> path v = p" "pageViews s" r]
      by (auto simp: by_session_path_def)
    from inv have "sorted (map timestamp (ys @ r # zs))" by (simp add: dedup_inv_def d(1))
    then have le: "\<forall>u\<in>set ys. timestamp u \<le> timestamp r" by (auto simp: sorted_append)
    have "\<forall>u\<in>set (pageViews s). spaced u ?e"
    proof
      fix u assume u: "u \<in> set (pageViews s)"
      show "spaced u ?e"
      proof (cases "sessionId u = sid \<and> path u = p")
        case True
        with u d have "u \<in> set ys \<or> u = r" by auto
        with le have "timestamp u \<le> timestamp r" by auto
        with False show ?thesis by (simp add: spaced_def)
      next
        case False
        then show ?thesis by (auto simp: spaced_def)
      qed
    qed
    with inv t Some False show ?thesis
      by (fastforce simp: recordPageView_pageViews dedup_inv_def sorted_append sorted_wrt_append)
  qed
qed

lemma dedup_inv_step:
  assumes "wf_store s" "dedup_inv t (pageViews s)" "t \<le> now" "step now c s = Some s'"
  shows "dedup_inv now (pageViews s')"
proof (cases "\<exists>p pt sid. c = RecordPageView p pt sid")
  case True
  then obtain p pt sid where "c = RecordPageView p pt sid" by blast
  with assms show ?thesis using dedup_inv_recordPageView by auto
next
  case False
  then have "pageViews s' = pageViews s" using step_pageViews [OF assms(1,4)] by simp
  with assms(2,3) show ?thesis by (simp add: dedup_inv_mono)
qed

lemma dedup_inv_exec:
  assumes "wf_store s" "dedup_inv t (pageViews s)" "sorted (map fst calls)"
    "\<forall>c\<in>set calls. t \<le> fst c" "exec s calls = Some s'"
  shows "\<exists>t'. dedup_inv t' (pageViews s')"
  using assms
proof (induction calls arbitrary: s t)
  case Nil
  then show ?case by auto
next
  case (Cons c calls)
  obtain now k where c: "c = (now, k)" by (cases c)
  with Cons.prems obtain s1 where s1: "step now k s = Some s1" "exec s1 calls = Some s'"
    by (auto split: option.splits)
  from Cons.prems c have t: "t \<le> now" by simp
  have 1: "wf_store s1" using Cons.prems(1) s1(1) by (rule wf_step)
  have 2: "dedup_inv now (pageViews s1)"
    using Cons.prems(1,2) t s1(1) by (rule dedup_inv_step)
  have 3: "sorted (map fst calls)" "\<forall>c\<in>set calls. now \<le> fst c"
    using Cons.prems(3) c by auto
  from Cons.IH [OF 1 2 3 s1(2)] show ?case .
qed


lemma delete_all_filter:
  "delete_all ids s = Some s' \<Longrightarrow>
     activeSessions s' = filter (\<lambda>r. as_id r \<notin> set ids) (activeSessions s)"
proof (induction ids arbitrary: s)
  case Nil
  then show ?case by simp
next
  case (Cons i ids)
  let ?s1 = "s\<lparr>activeSessions := filter (\<lambda>r. as_id r \<noteq> i) (activeSessions s)\<rparr>"
  from Cons.prems have "delete_all ids ?s1 = Some s'"
    by (simp add: delete_activeSession_def split: if_splits)
  from Cons.IH [OF this] have "activeSessions s' =
      filter (\<lambda>r. as_id r \<notin> set ids) (filter (\<lambda>r. as_id r \<noteq> i) (activeSessions s))"
    by simp
  also have "\<dots> = filter (\<lambda>r. as_id r \<notin> set (i # ids)) (activeSessions s)"
    by (auto intro: filter_cong)
  finally show ?case .
qed

lemma one_row_step:
  assumes "wf_store s \<and> distinct (map as_sessionId (activeSessions s))" "step now c s = Some s'"
  shows "wf_store s' \<and> distinct (map as_sessionId (activeSessions s'))"
proof
  from assms show "wf_store s'" using wf_step by blast
  from assms(1) have d: "distinct (map as_sessionId (activeSessions s))"
    and i: "distinct (map as_id (activeSessions s))" by (simp_all add: wf_store_def)
  show "distinct (map as_sessionId (activeSessions s'))"
  proof (cases c)
    case (RecordPageView p pt sid)
    with assms(2) d show ?thesis by (auto simp: recordPageView_activeSessions)
  next
    case (Heartbeat sid cp)
    show ?thesis
    proof (cases "first (by_sessionId sid (activeSessions s))")
      case None
      then have "sid \<notin> set (map as_sessionId (activeSessions s))"
        by (auto simp: by_sessionId_def first_filter_None)
      with None assms(2) Heartbeat d show ?thesis
        by (auto simp: heartbeat_new simp del: set_map)
    next
      case (Some r)
      with assms(2) Heartbeat d show ?thesis
        by (auto simp: heartbeat_existing patch_sessionIds simp del: map_map split: if_splits)
    qed
  next
    case GetStats
    with assms(2) d show ?thesis by simp
  next
    case CleanupStaleSessions
    with assms(2) d i show ?thesis
      by (auto simp: cleanupStaleSessions_eq distinct_map_filter)
  next
    case BackfillAggregates
    with assms(2) d show ?thesis by (auto simp: backfillAggregates_eq)
  qed
qed

lemmas run_defs =
  empty_store_def recordPageView_def heartbeat_def cleanupStaleSessions_def
  backfillAggregates_def getStats_def first_def by_session_path_def by_session_def
  by_sessionId_def by_lastSeen_def by_timestamp_def insert_pageView_def get_pageView_def
  insert_activeSession_def patch_activeSession_def delete_activeSession_def
  pageViewsByPath_insert_def totalPageViews_insert_def uniqueVisitors_insert_def
  insertIfDoesNotExist_def DEDUP_WINDOW_MS_def SESSION_TIMEOUT_MS_def HEARTBEAT_DEDUP_MS_def
  Let_def

subsection \<open>First views and the unique-visitor aggregate\<close>

lemma firstViews_append:
  "firstViews seen (xs @ ys) = firstViews seen xs @ firstViews (seen \<union> sessionId ` set xs) ys"
  by (induction xs arbitrary: seen) (simp_all add: insert_absorb)

lemma in_firstViews:
  "d \<in> set (firstViews seen vs) \<longleftrightarrow>
     sessionId d \<notin> seen \<and> first (by_session (sessionId d) vs) = Some d"
proof (induction vs arbitrary: seen)
  case Nil
  then show ?case by (simp add: by_session_def first_def)
next
  case (Cons x vs)
  have IH: "\<And>seen. d \<in> set (firstViews seen vs) \<longleftrightarrow>
     sessionId d \<notin> seen \<and> first (filter (\<lambda>v. sessionId v = sessionId d) vs) = Some d"
    using Cons.IH by (simp add: by_session_def)
  show ?case
    by (auto simp: by_session_def first_Cons IH)
qed

lemma by_session_empty:
  "by_session sid views = [] \<longleftrightarrow> (\<forall>u\<in>set views. sessionId u \<noteq> sid)"
  by (simp add: by_session_def filter_empty_conv)

lemma uv_inv_recordPageView:
  assumes "wf_store s" "uv_inv s"
  shows "uv_inv (recordPageView now p pt sid s)"
proof -
  have "sid \<in> sessionId ` set (pageViews s) \<longleftrightarrow> by_session sid (pageViews s) \<noteq> []"
    by (auto simp: by_session_empty)
  with assms(2) show ?thesis
    unfolding recordPageView_eq [OF wf_fresh_pageView [OF assms(1)]]
    by (simp add: uv_inv_def firstViews_append)
qed

lemma step_uniqueVisitors:
  assumes "wf_store s" "step now c s = Some s'"
    "\<forall>p pt sid. c \<noteq> RecordPageView p pt sid" "c \<noteq> BackfillAggregates"
  shows "uniqueVisitors s' = uniqueVisitors s"
proof (cases c)
  case (RecordPageView p pt sid)
  with assms(3) show ?thesis by simp
next
  case (Heartbeat sid cp)
  show ?thesis
  proof (cases "first (by_sessionId sid (activeSessions s))")
    case None
    with assms(2) Heartbeat show ?thesis by (auto simp: heartbeat_new)
  next
    case (Some r)
    with assms(2) Heartbeat show ?thesis by (auto simp: heartbeat_existing split: if_splits)
  qed
next
  case GetStats
  with assms(2) show ?thesis by simp
next
  case CleanupStaleSessions
  from assms(1) have "distinct (map as_id (activeSessions s))" by (simp add: wf_store_def)
  with assms(2) CleanupStaleSessions show ?thesis by (auto simp: cleanupStaleSessions_eq)
next
  case BackfillAggregates
  with assms(4) show ?thesis by simp
qed

lemma uv_inv_step:
  assumes "wf_store s \<and> uv_inv s" "step now c s = Some s'"
  shows "wf_store s' \<and> uv_inv s'"
proof
  from assms show "wf_store s'" using wf_step by blast
  show "uv_inv s'"
  proof (cases "\<exists>p pt sid. c = RecordPageView p pt sid")
    case True
    then obtain p pt sid where "c = RecordPageView p pt sid" by blast
    with assms show ?thesis using uv_inv_recordPageView by auto
  next
    case False
    note nr = this
    show ?thesis
    proof (cases "c = BackfillAggregates")
      case True
      with assms show ?thesis by (auto simp: uv_inv_def backfillAggregates_eq)
    next
      case False
      with nr assms have "uniqueVisitors s' = uniqueVisitors s" "pageViews s' = pageViews s"
        using step_uniqueVisitors [of s now c s'] step_pageViews [of s now c s'] by auto
      with assms(1) show ?thesis by (simp add: uv_inv_def)
    qed
  qed
qed

lemma first_by_session:
  "first (by_session sid views) = Some d \<Longrightarrow> sessionId d = sid"
  using first_filter_Some [of "\<lambda>v. sessionId v = sid" views d] by (simp add: by_session_def)

lemma uv_inv_session:
  assumes "uv_inv s"
  shows "{e \<in> uniqueVisitors s. fst (snd e) = sid} =
     (case first (by_session sid (pageViews s)) of None \<Rightarrow> {}
      | Some d \<Rightarrow> {((), sid, pv_id d)})"
proof -
  have "{e \<in> uniqueVisitors s. fst (snd e) = sid} =
      {((), sid, pv_id d) | d. first (by_session sid (pageViews s)) = Some d}"
  proof (intro set_eqI iffI)
    fix e assume "e \<in> {e \<in> uniqueVisitors s. fst (snd e) = sid}"
    with assms obtain d where d: "d \<in> set (firstViews {} (pageViews s))"
      "e = ((), sessionId d, pv_id d)" "sessionId d = sid"
      by (auto simp: uv_inv_def)
    from d(1) have "first (by_session (sessionId d) (pageViews s)) = Some d"
      by (simp add: in_firstViews)
    with d(2,3) show "e \<in> {((), sid, pv_id d) | d. first (by_session sid (pageViews s)) = Some d}"
      by blast
  next
    fix e assume "e \<in> {((), sid, pv_id d) | d. first (by_session sid (pageViews s)) = Some d}"
    then obtain d where d: "e = ((), sid, pv_id d)" "first (by_session sid (pageViews s)) = Some d"
      by blast
    from d(2) have sd: "sessionId d = sid" by (rule first_by_session)
    with d(2) have "d \<in> set (firstViews {} (pageViews s))" by (simp add: in_firstViews)
    then have "((), sessionId d, pv_id d) \<in> uniqueVisitors s"
      using assms by (simp add: uv_inv_def)
    with d(1) sd show "e \<in> {e \<in> uniqueVisitors s. fst (snd e) = sid}" by simp
  qed
  then show ?thesis
    by (cases "first (by_session sid (pageViews s))") auto
qed

subsection \<open>Scans in index order\<close>




subsection \<open>The row of a session\<close>

lemma patch_unique_row:
  assumes "distinct (map as_sessionId rows)" "distinct (map as_id rows)" "r \<in> set rows"
  shows "map (\<lambda>x. if as_id x = as_id r then f x else x) rows =
     map (\<lambda>x. if as_sessionId x = as_sessionId r then f x else x) rows"
proof (rule map_cong [OF refl])
  fix x assume x: "x \<in> set rows"
  from assms(1) have "inj_on as_sessionId (set rows)" by (simp add: distinct_map)
  moreover from assms(2) have "inj_on as_id (set rows)" by (simp add: distinct_map)
  ultimately have "as_id x = as_id r \<longleftrightarrow> as_sessionId x = as_sessionId r"
    using x assms(3) by (auto dest: inj_onD)
  then show "(if as_id x = as_id r then f x else x) =
     (if as_sessionId x = as_sessionId r then f x else x)" by simp
qed

subsection \<open>What a backfill returns\<close>

lemma backfillAggregates_result:
  "snd (backfillAggregates s) =
     \<lparr>processed = length (pageViews s),
      uniqueSessions = length (firstViews {} (pageViews s))\<rparr>"
  by (simp add: backfillAggregates_def Let_def backfill_loop_eq)

section \<open>Facts about the raw markdown function\<close>

subsection \<open>Blank strings\<close>

lemma trim_eq_Nil: "trim s = [] \<longleftrightarrow> (\<forall>c\<in>set s. isWhiteSpace c)"
proof -
  have "trim s = [] \<longleftrightarrow> (\<forall>c\<in>set (dropWhile isWhiteSpace s). isWhiteSpace c)"
    by (simp add: trim_def dropWhile_eq_Nil_conv)
  also have "\<dots> \<longleftrightarrow> dropWhile isWhiteSpace s = []"
  proof
    assume a: "\<forall>c\<in>set (dropWhile isWhiteSpace s). isWhiteSpace c"
    show "dropWhile isWhiteSpace s = []"
    proof (rule ccontr)
      assume "dropWhile isWhiteSpace s \<noteq> []"
      then have "\<not> isWhiteSpace (hd (dropWhile isWhiteSpace s))"
        by (rule hd_dropWhile)
      moreover from \<open>dropWhile isWhiteSpace s \<noteq> []\<close>
      have "hd (dropWhile isWhiteSpace s) \<in> set (dropWhile isWhiteSpace s)" by simp
      ultimately show False using a by blast
    qed
  next
    assume e: "dropWhile isWhiteSpace s = []"
    show "\<forall>c\<in>set (dropWhile isWhiteSpace s). isWhiteSpace c"
      unfolding e by simp
  qed
  also have "\<dots> \<longleftrightarrow> (\<forall>c\<in>set s. isWhiteSpace c)"
    by (simp add: dropWhile_eq_Nil_conv)
  finally show ?thesis .
qed

lemma tryRead_servable: "tryRead files p = servable files p"
proof -
  have "\<And>b. (b = [] \<or> length (trim b) = 0) \<longleftrightarrow> \<not> (\<exists>c\<in>set b. \<not> isWhiteSpace c)"
    by (auto simp: trim_eq_Nil)
  then show ?thesis
    by (simp add: tryRead_def servable_def split: option.splits fs_entry.splits)
qed

lemma slug_of_event:
  "normalizeSlug (case queryStringParameters ev of None \<Rightarrow> None | Some q \<Rightarrow> q k) =
     stripSlashes (trim (case queryStringParameters ev of None \<Rightarrow> []
                         | Some q \<Rightarrow> (case q k of None \<Rightarrow> [] | Some v \<Rightarrow> v)))"
  by (simp add: normalizeSlug_def split: option.splits)

lemma readCandidates_two:
  "readCandidates files [p, q] =
     (case servable files p of Some b \<Rightarrow> Some b | None \<Rightarrow> servable files q)"
  by (simp add: tryRead_servable split: option.splits)

subsection \<open>Paths\<close>

lemma split_slash_ne: "split_slash s \<noteq> []"
  by (induction s) (auto split: list.splits)

lemma split_slash_append: "split_slash (a @ 47 # b) = split_slash a @ split_slash b"
proof (induction a)
  case Nil
  then show ?case by simp
next
  case (Cons c a)
  obtain seg segs where s: "split_slash a = seg # segs"
    using split_slash_ne [of a] by (cases "split_slash a") auto
  with Cons show ?case by simp
qed

lemma split_slash_plain: "47 \<notin> set t \<Longrightarrow> split_slash t = [t]"
  by (induction t) auto

lemma split_slash_suffix:
  "47 \<notin> set t \<Longrightarrow> split_slash (s @ t) = butlast (split_slash s) @ [last (split_slash s) @ t]"
proof (induction s)
  case Nil
  then show ?case by (simp add: split_slash_plain)
next
  case (Cons c s)
  obtain seg segs where s: "split_slash s = seg # segs"
    using split_slash_ne [of s] by (cases "split_slash s") auto
  obtain seg' segs' where s': "split_slash (s @ t) = seg' # segs'"
    using split_slash_ne [of "s @ t"] by (cases "split_slash (s @ t)") auto
  from Cons s s' show ?case by (cases segs) auto
qed

lemma split_slash_no_slash: "seg \<in> set (split_slash s) \<Longrightarrow> 47 \<notin> set seg"
proof (induction s arbitrary: seg)
  case Nil
  then show ?case by simp
next
  case (Cons c s)
  obtain x xs where s: "split_slash s = x # xs"
    using split_slash_ne [of s] by (cases "split_slash s") auto
  with Cons show ?case by (auto split: if_splits)
qed

lemma join_segments_append:
  "xs \<noteq> [] \<Longrightarrow> ys \<noteq> [] \<Longrightarrow>
     join_segments (xs @ ys) = join_segments xs @ 47 # join_segments ys"
proof (induction xs rule: join_segments.induct)
  case 1
  then show ?case by simp
next
  case (2 s)
  then show ?case by (cases ys) simp_all
next
  case (3 s t ss)
  then show ?case by simp
qed

lemma join_segments_ne: "xs \<noteq> [] \<Longrightarrow> last xs \<noteq> [] \<Longrightarrow> join_segments xs \<noteq> []"
  by (induction xs rule: join_segments.induct) auto

lemma split_join_segments:
  "xs \<noteq> [] \<Longrightarrow> \<forall>x\<in>set xs. 47 \<notin> set x \<Longrightarrow> split_slash (join_segments xs) = xs"
proof (induction xs rule: join_segments.induct)
  case 1
  then show ?case by simp
next
  case (2 s)
  then show ?case by (simp add: split_slash_plain)
next
  case (3 s t ss)
  then show ?case by (simp add: split_slash_append split_slash_plain)
qed

lemma foldl_normalize_plain:
  "js ''..'' \<notin> set segs \<Longrightarrow>
     foldl (normalize_segment a) res segs = res @ filter plain_segment segs"
  by (induction segs arbitrary: res) (auto simp: normalize_segment_def plain_segment_def)


lemma js_literals:
  "js ''.'' = [46]" "js ''..'' = [46, 46]" "js ''.md'' = [46, 109, 100]"
  "js ''public'' = [112, 117, 98, 108, 105, 99]" "js ''dist'' = [100, 105, 115, 116]"
  "js ''raw'' = [114, 97, 119]"
  by (simp_all add: js_def)

lemma normalize_dir_file:
  assumes a: "47 \<notin> set a" "plain_segment a" "a \<noteq> js ''..''"
    and b: "47 \<notin> set b" "plain_segment b" "b \<noteq> js ''..''"
    and f: "filename \<noteq> []" "last filename \<noteq> 47" "js ''..'' \<notin> set (split_slash filename)"
      "filter plain_segment (split_slash filename) \<noteq> []"
  shows "path_join [root, a, b, filename] =
     path_join [root, a, b] @ 47 # join_segments (filter plain_segment (split_slash filename))"
proof -
  define D where "D = join_segments (filter (\<lambda>arg. arg \<noteq> []) [root, a, b])"
  define R where "R = filter plain_segment (split_slash filename)"
  define allow where "allow = (hd D \<noteq> 47)"
  from a b have ne: "a \<noteq> []" "b \<noteq> []" by (simp_all add: plain_segment_def)
  have D: "D = (if root = [] then a @ 47 # b else root @ 47 # a @ 47 # b)"
    using ne by (simp add: D_def)
  then have Dne: "D \<noteq> []" using ne by auto
  have lastD: "last D = last b" using ne by (simp add: D)
  with b(1) ne have trailD: "last D \<noteq> 47" by (metis last_in_set)
  have j1: "path_join [root, a, b] = normalize D"
    using ne by (simp add: path_join_def D_def split: list.splits)
  have j2: "path_join [root, a, b, filename] = normalize (D @ 47 # filename)"
    using ne f(1) by (simp add: path_join_def D)
  have "split_slash D = (if root = [] then [] else split_slash root) @ [a, b]"
    using a(1) b(1) by (simp add: D split_slash_append split_slash_plain)
  then obtain P where P: "split_slash D = P @ [a, b]" by blast
  define X where "X = foldl (normalize_segment allow) [] P"
  have step_a: "\<And>res. normalize_segment allow res a = res @ [a]"
    using a by (simp add: normalize_segment_def plain_segment_def)
  have step_b: "\<And>res. normalize_segment allow res b = res @ [b]"
    using b by (simp add: normalize_segment_def plain_segment_def)
  have stackD: "foldl (normalize_segment allow) [] (split_slash D) = X @ [a, b]"
    by (simp add: P X_def step_a step_b)
  have stackF: "foldl (normalize_segment allow) [] (split_slash (D @ 47 # filename))
      = (X @ [a, b]) @ R"
    using foldl_normalize_plain [OF f(3), of allow "X @ [a, b]"]
    by (simp add: split_slash_append stackD R_def)
  have qD: "normalizeString D allow = join_segments (X @ [a, b])"
    by (simp add: normalizeString_def stackD)
  have qF: "normalizeString (D @ 47 # filename) allow
      = join_segments (X @ [a, b]) @ 47 # join_segments R"
  proof -
    have "X @ [a, b] \<noteq> []" "R \<noteq> []" using f(4) by (simp_all add: R_def)
    then have "join_segments ((X @ [a, b]) @ R) =
        join_segments (X @ [a, b]) @ 47 # join_segments R"
      by (rule join_segments_append)
    then show ?thesis unfolding normalizeString_def stackF .
  qed
  have qne: "join_segments (X @ [a, b]) \<noteq> []"
    using ne by (intro join_segments_ne) simp_all
  have nD: "normalize D = (if hd D = 47 then 47 # join_segments (X @ [a, b])
                           else join_segments (X @ [a, b]))"
    using Dne trailD qne qD by (simp add: normalize_def Let_def allow_def)
  have hdF: "hd (D @ 47 # filename) = hd D" using Dne by simp
  have lastF: "last (D @ 47 # filename) \<noteq> 47" using f(1,2) by simp
  have nF: "normalize (D @ 47 # filename) =
      (if hd D = 47 then 47 # join_segments (X @ [a, b]) @ 47 # join_segments R
       else join_segments (X @ [a, b]) @ 47 # join_segments R)"
    using lastF qF by (simp add: normalize_def Let_def hdF allow_def)
  show ?thesis
    unfolding j1 j2 nD nF R_def [symmetric] by simp
qed

lemma md_file_name:
  assumes "filename = pre @ js ''.md''"
  shows "filename \<noteq> []" "last filename \<noteq> 47"
    "filter plain_segment (split_slash filename) \<noteq> []"
proof -
  from assms show "filename \<noteq> []" "last filename \<noteq> 47"
    by (simp_all add: js_literals)
  have "split_slash filename =
      butlast (split_slash pre) @ [last (split_slash pre) @ js ''.md'']"
    unfolding assms by (rule split_slash_suffix) (simp add: js_literals)
  moreover have "plain_segment (last (split_slash pre) @ js ''.md'')"
    by (simp add: plain_segment_def js_literals)
  ultimately show "filter plain_segment (split_slash filename) \<noteq> []"
    by simp
qed

lemma endsWith_suffix: "endsWith s t \<Longrightarrow> \<exists>pre. s = pre @ t"
  by (metis append_take_drop_id endsWith_def)

lemma segments_of_join:
  "js ''..'' \<notin> set (split_slash filename) \<Longrightarrow>
   filter plain_segment (split_slash filename) \<noteq> [] \<Longrightarrow>
   js ''..'' \<notin> set (split_slash (join_segments (filter plain_segment (split_slash filename))))"
proof -
  assume n: "js ''..'' \<notin> set (split_slash filename)"
    and ne: "filter plain_segment (split_slash filename) \<noteq> []"
  have "\<forall>x\<in>set (filter plain_segment (split_slash filename)). 47 \<notin> set x"
    using split_slash_no_slash by auto
  from split_join_segments [OF ne this] n
  show ?thesis by auto
qed

lemmas raw_defs =
  example_env_def example_event_def js_def normalizeSlug_def stripSlashes_def trim_def
  isWhiteSpace_def endsWith_def servable_def plain_segment_def path_join_def normalize_def
  normalizeString_def normalize_segment_def Let_def

section \<open>Deduplication of page views\<close>

text \<open>
  C1. \<open>recordPageView\<close> looks at the most recent stored event of the same session and path
  (the last one in creation order, which is what the descending scan of \<open>by_session_path\<close>
  returns first). If that event \<open>v\<close> is less than \<open>DEDUP_WINDOW_MS\<close> before the current time,
  the call leaves the store as it is; otherwise, and also when the session has no event on
  that path (whatever it has on other paths), the call appends exactly one event, with the
  arguments and the current time. Two calls for the same session and path, the first on a
  store without such an event: less than 30 minutes apart they leave one new event, 30
  minutes or more apart they leave two.
\<close>

theorem recordPageView_dedup:
  "(pageViews s = xs @ v # ys \<and> sessionId v = sid \<and> path v = p \<and>
      (\<forall>u\<in>set ys. \<not> (sessionId u = sid \<and> path u = p)) \<longrightarrow>
        (if now - timestamp v < DEDUP_WINDOW_MS
         then recordPageView now p pt sid s = s
         else pageViews (recordPageView now p pt sid s) =
                pageViews s @ [\<lparr>pv_id = nextId s, path = p, pageType = pt, sessionId = sid,
                                 timestamp = now\<rparr>]))
   \<and> ((\<forall>u\<in>set (pageViews s). \<not> (sessionId u = sid \<and> path u = p)) \<longrightarrow>
        pageViews (recordPageView now p pt sid s) =
          pageViews s @ [\<lparr>pv_id = nextId s, path = p, pageType = pt, sessionId = sid,
                           timestamp = now\<rparr>]
        \<and> pageViews (recordPageView now' p pt sid (recordPageView now p pt sid s)) =
            (if now' - now < DEDUP_WINDOW_MS
             then pageViews s @ [\<lparr>pv_id = nextId s, path = p, pageType = pt, sessionId = sid,
                                   timestamp = now\<rparr>]
             else pageViews s @ [\<lparr>pv_id = nextId s, path = p, pageType = pt, sessionId = sid,
                                   timestamp = now\<rparr>,
                                 \<lparr>pv_id = Suc (nextId s), path = p, pageType = pt,
                                   sessionId = sid, timestamp = now'\<rparr>]))"
proof (intro conjI impI)
  assume a: "pageViews s = xs @ v # ys \<and> sessionId v = sid \<and> path v = p \<and>
      (\<forall>u\<in>set ys. \<not> (sessionId u = sid \<and> path u = p))"
  then have r: "first (rev (by_session_path sid p (pageViews s))) = Some v"
    using recent_last [of v sid p ys xs] by simp
  show "if now - timestamp v < DEDUP_WINDOW_MS
         then recordPageView now p pt sid s = s
         else pageViews (recordPageView now p pt sid s) =
                pageViews s @ [\<lparr>pv_id = nextId s, path = p, pageType = pt, sessionId = sid,
                                 timestamp = now\<rparr>]"
    using recordPageView_skip [OF r] recordPageView_insert_Some [OF r] by simp
next
  assume n: "\<forall>u\<in>set (pageViews s). \<not> (sessionId u = sid \<and> path u = p)"
  let ?e = "\<lparr>pv_id = nextId s, path = p, pageType = pt, sessionId = sid, timestamp = now\<rparr>"
  let ?s1 = "recordPageView now p pt sid s"
  have none: "first (rev (by_session_path sid p (pageViews s))) = None"
    using n by (rule recent_none)
  show one: "pageViews ?s1 = pageViews s @ [?e]"
    using none by (rule recordPageView_insert_None)
  have r: "first (rev (by_session_path sid p (pageViews ?s1))) = Some ?e"
    unfolding one using recent_last [of ?e sid p "[]" "pageViews s"] by simp
  have nid: "nextId ?s1 = Suc (nextId s)"
    using none by (simp add: recordPageView_def Let_def insert_pageView_def nextId_inserted)
  show "pageViews (recordPageView now' p pt sid ?s1) =
            (if now' - now < DEDUP_WINDOW_MS
             then pageViews s @ [?e]
             else pageViews s @ [?e, \<lparr>pv_id = Suc (nextId s), path = p, pageType = pt,
                                   sessionId = sid, timestamp = now'\<rparr>])"
    using recordPageView_skip [OF r, of now' pt] recordPageView_insert_Some [OF r, of now' pt]
    by (simp add: one nid)
qed

theorem recordPageView_dedup_witness:
  "recordPageView 600000 ''/a'' ''page'' ''s1'' (recordPageView 0 ''/a'' ''page'' ''s1'' empty_store)
     = recordPageView 0 ''/a'' ''page'' ''s1'' empty_store
   \<and> pageViews (recordPageView 600000 ''/a'' ''page'' ''s1''
        (recordPageView 0 ''/a'' ''page'' ''s1'' empty_store)) =
       [\<lparr>pv_id = 0, path = ''/a'', pageType = ''page'', sessionId = ''s1'', timestamp = 0\<rparr>]
   \<and> pageViews (recordPageView 2000000 ''/a'' ''page'' ''s1''
        (recordPageView 0 ''/a'' ''page'' ''s1'' empty_store)) =
       [\<lparr>pv_id = 0, path = ''/a'', pageType = ''page'', sessionId = ''s1'', timestamp = 0\<rparr>,
        \<lparr>pv_id = 1, path = ''/a'', pageType = ''page'', sessionId = ''s1'', timestamp = 2000000\<rparr>]"
proof -
  let ?e = "\<lparr>pv_id = 0, path = ''/a'', pageType = ''page'', sessionId = ''s1'', timestamp = 0\<rparr>"
  let ?s1 = "recordPageView 0 ''/a'' ''page'' ''s1'' empty_store"
  have e: "pageViews empty_store = []" "nextId empty_store = 0"
    by (simp_all add: empty_store_def)
  have one: "pageViews ?s1 = [] @ ?e # []"
    using recordPageView_dedup [of empty_store "[]" ?e "[]" "''s1''" "''/a''" 0 "''page''" 0]
    by (simp add: e)
  show ?thesis
    using recordPageView_dedup [of ?s1 "[]" ?e "[]" "''s1''" "''/a''" 600000 "''page''" 0]
      recordPageView_dedup [of empty_store "[]" ?e "[]" "''s1''" "''/a''" 0 "''page''" 600000]
      recordPageView_dedup [of empty_store "[]" ?e "[]" "''s1''" "''/a''" 0 "''page''" 2000000]
      one
    by (simp add: e DEDUP_WINDOW_MS_def)
qed

text \<open>
  C2. From the empty store, every sequence of calls of the five functions whose clock never
  goes back runs to the end, and in the store it reaches no two page views of the same
  session and path are less than \<open>DEDUP_WINDOW_MS\<close> apart: of two such views, the one stored
  later has a timestamp at least 30 minutes after the other's. (A view is refused while the
  latest one is within the window in the sense of the source's comparison,
  \<open>timestamp > now - DEDUP_WINDOW_MS\<close>; two views exactly 30 minutes apart are both stored.)
\<close>

theorem no_two_views_within_window:
  assumes "sorted (map fst calls)"
  shows "\<exists>s. exec empty_store calls = Some s \<and>
     (\<forall>j < length (pageViews s). \<forall>i < j.
        sessionId (pageViews s ! i) = sessionId (pageViews s ! j) \<and>
        path (pageViews s ! i) = path (pageViews s ! j) \<longrightarrow>
        DEDUP_WINDOW_MS \<le> timestamp (pageViews s ! j) - timestamp (pageViews s ! i))"
proof -
  from exec_total [OF wf_empty_store] obtain s where s: "exec empty_store calls = Some s"
    by blast
  obtain t where t: "\<forall>c\<in>set calls. t \<le> fst c"
  proof (cases calls)
    case Nil
    then show ?thesis using that by simp
  next
    case (Cons c cs)
    with assms have "\<forall>x\<in>set calls. fst c \<le> fst x" by auto
    then show ?thesis using that by blast
  qed
  have "dedup_inv t (pageViews empty_store)"
    by (simp add: dedup_inv_def empty_store_def)
  from dedup_inv_exec [OF wf_empty_store this assms t s]
  have "sorted_wrt spaced (pageViews s)" by (auto simp: dedup_inv_def)
  then have "\<forall>j < length (pageViews s). \<forall>i < j. spaced (pageViews s ! i) (pageViews s ! j)"
    by (simp add: sorted_wrt_iff_nth_less)
  with s show ?thesis by (auto simp: spaced_def)
qed

theorem no_two_views_within_window_witness:
  "\<exists>s. exec empty_store
          [(0, RecordPageView ''/a'' ''page'' ''s1''),
           (600000, RecordPageView ''/a'' ''page'' ''s1''),
           (2000000, RecordPageView ''/a'' ''page'' ''s1'')] = Some s
      \<and> map timestamp (pageViews s) = [0, 2000000]
      \<and> DEDUP_WINDOW_MS \<le> timestamp (pageViews s ! 1) - timestamp (pageViews s ! 0)"
proof -
  let ?calls = "[(0::int, RecordPageView ''/a'' ''page'' ''s1''),
           (600000, RecordPageView ''/a'' ''page'' ''s1''),
           (2000000, RecordPageView ''/a'' ''page'' ''s1'')]"
  have "sorted (map fst ?calls)" by simp
  from no_two_views_within_window [OF this] obtain s where
    s: "exec empty_store ?calls = Some s" and
    gap: "\<forall>j < length (pageViews s). \<forall>i < j.
        sessionId (pageViews s ! i) = sessionId (pageViews s ! j) \<and>
        path (pageViews s ! i) = path (pageViews s ! j) \<longrightarrow>
        DEDUP_WINDOW_MS \<le> timestamp (pageViews s ! j) - timestamp (pageViews s ! i)"
    by blast
  have v: "pageViews s =
      [\<lparr>pv_id = 0, path = ''/a'', pageType = ''page'', sessionId = ''s1'', timestamp = 0\<rparr>,
       \<lparr>pv_id = 1, path = ''/a'', pageType = ''page'', sessionId = ''s1'', timestamp = 2000000\<rparr>]"
    using s by (auto simp: run_defs)
  from gap have "1 < length (pageViews s) \<longrightarrow> sessionId (pageViews s ! 0) = sessionId (pageViews s ! 1) \<and>
        path (pageViews s ! 0) = path (pageViews s ! 1) \<longrightarrow>
        DEDUP_WINDOW_MS \<le> timestamp (pageViews s ! 1) - timestamp (pageViews s ! 0)"
    by blast
  then have "DEDUP_WINDOW_MS \<le> timestamp (pageViews s ! 1) - timestamp (pageViews s ! 0)"
    by (simp add: v)
  with s v show ?thesis by simp
qed

section \<open>Unique visitors\<close>

text \<open>
  C3. On a well-formed store a call of \<open>recordPageView\<close> for a session that has no stored
  view (on any path) always stores the new view, with the fresh identifier, and adds its
  entry to the unique-visitor aggregate, which did not hold it; for a session that has a
  stored view the aggregate is left as it was, whether or not the call stores a view. So,
  whenever a view is stored, its entry is in the aggregate afterwards if and only if no view
  of the session was stored before the call. Consequently, in every store reached from the
  empty store by calls of the five functions (in particular by calls of \<open>recordPageView\<close>
  alone), the entries of the aggregate for a session are: none when the session has no
  stored view, and otherwise the single entry of its first stored view.
\<close>

theorem uniqueVisitors_first_view_only:
  "(wf_store s \<longrightarrow>
      ((), sid, nextId s) \<notin> uniqueVisitors s \<and>
      (pageViews (recordPageView now p pt sid s) = pageViews s \<or>
       pageViews (recordPageView now p pt sid s) = pageViews s @
         [\<lparr>pv_id = nextId s, path = p, pageType = pt, sessionId = sid, timestamp = now\<rparr>]) \<and>
      ((\<forall>u\<in>set (pageViews s). sessionId u \<noteq> sid) \<longrightarrow>
         pageViews (recordPageView now p pt sid s) = pageViews s @
           [\<lparr>pv_id = nextId s, path = p, pageType = pt, sessionId = sid, timestamp = now\<rparr>]) \<and>
      uniqueVisitors (recordPageView now p pt sid s) =
        (if \<forall>u\<in>set (pageViews s). sessionId u \<noteq> sid
         then insert ((), sid, nextId s) (uniqueVisitors s)
         else uniqueVisitors s) \<and>
      (pageViews (recordPageView now p pt sid s) \<noteq> pageViews s \<longrightarrow>
         (((), sid, nextId s) \<in> uniqueVisitors (recordPageView now p pt sid s) \<longleftrightarrow>
          (\<forall>u\<in>set (pageViews s). sessionId u \<noteq> sid))))
   \<and> (exec empty_store calls = Some s' \<longrightarrow>
        {e \<in> uniqueVisitors s'. fst (snd e) = sid'} =
          (case first (by_session sid' (pageViews s')) of None \<Rightarrow> {}
           | Some d \<Rightarrow> {((), sid', pv_id d)}))"
proof (intro conjI impI)
  assume wf: "wf_store s"
  let ?s' = "recordPageView now p pt sid s"
  let ?e = "\<lparr>pv_id = nextId s, path = p, pageType = pt, sessionId = sid, timestamp = now\<rparr>"
  from wf have "nextId s \<notin> agg_ids (uniqueVisitors s)" by (auto simp: wf_store_def)
  then show fresh: "((), sid, nextId s) \<notin> uniqueVisitors s" by (force simp: agg_ids_def)
  show "pageViews ?s' = pageViews s \<or> pageViews ?s' = pageViews s @ [?e]"
    by (simp add: recordPageView_pageViews)
  have none: "first (rev (by_session_path sid p (pageViews s))) = None"
    if "\<forall>u\<in>set (pageViews s). sessionId u \<noteq> sid"
    using that by (intro recent_none) blast
  have uv: "uniqueVisitors ?s' =
        (if \<forall>u\<in>set (pageViews s). sessionId u \<noteq> sid
         then insert ((), sid, nextId s) (uniqueVisitors s)
         else uniqueVisitors s)"
  proof (cases "\<forall>u\<in>set (pageViews s). sessionId u \<noteq> sid")
    case True
    with none [OF True] show ?thesis
      unfolding recordPageView_eq [OF wf_fresh_pageView [OF wf]]
      by (simp add: by_session_empty)
  next
    case False
    then show ?thesis
      unfolding recordPageView_eq [OF wf_fresh_pageView [OF wf]]
      by (auto simp: by_session_empty)
  qed
  then show "uniqueVisitors ?s' =
        (if \<forall>u\<in>set (pageViews s). sessionId u \<noteq> sid
         then insert ((), sid, nextId s) (uniqueVisitors s)
         else uniqueVisitors s)" .
  from uv fresh show "((), sid, nextId s) \<in> uniqueVisitors ?s' \<longleftrightarrow>
          (\<forall>u\<in>set (pageViews s). sessionId u \<noteq> sid)"
    by (simp split: if_splits)
  assume a: "\<forall>u\<in>set (pageViews s). sessionId u \<noteq> sid"
  from none [OF a] show "pageViews ?s' = pageViews s @ [?e]"
    by (rule recordPageView_insert_None)
next
  assume e: "exec empty_store calls = Some s'"
  have "wf_store s' \<and> uv_inv s'"
    by (rule exec_invariant [where I = "\<lambda>s. wf_store s \<and> uv_inv s", OF _ uv_inv_step e])
       (simp_all add: wf_empty_store, simp add: uv_inv_def empty_store_def)
  then show "{e \<in> uniqueVisitors s'. fst (snd e) = sid'} =
          (case first (by_session sid' (pageViews s')) of None \<Rightarrow> {}
           | Some d \<Rightarrow> {((), sid', pv_id d)})"
    using uv_inv_session by blast
qed


theorem uniqueVisitors_first_view_only_witness:
  "wf_store empty_store
   \<and> uniqueVisitors (recordPageView 0 ''/a'' ''page'' ''s1'' empty_store) = {((), ''s1'', 0)}
   \<and> pageViews (recordPageView 0 ''/a'' ''page'' ''s1'' empty_store) =
       [\<lparr>pv_id = 0, path = ''/a'', pageType = ''page'', sessionId = ''s1'', timestamp = 0\<rparr>]
   \<and> uniqueVisitors (recordPageView 1000 ''/b'' ''page'' ''s1''
        \<lparr>pageViews =
           [\<lparr>pv_id = 0, path = ''/a'', pageType = ''page'', sessionId = ''s1'', timestamp = 0\<rparr>],
         activeSessions = [], pageViewsByPath = {(''/a'', 0, 0)},
         totalPageViews = {((), (), 0)}, uniqueVisitors = {((), ''s1'', 0)}, nextId = 1\<rparr>)
       = {((), ''s1'', 0)}
   \<and> (\<exists>s'. exec empty_store
          [(0, RecordPageView ''/a'' ''page'' ''s1''),
           (1000, RecordPageView ''/b'' ''page'' ''s1''),
           (2000, RecordPageView ''/a'' ''page'' ''s2''),
           (3000, BackfillAggregates)] = Some s'
        \<and> map sessionId (pageViews s') = [''s1'', ''s1'', ''s2'']
        \<and> {e \<in> uniqueVisitors s'. fst (snd e) = ''s1''} = {((), ''s1'', 0)})"
proof -
  let ?calls = "[(0::int, RecordPageView ''/a'' ''page'' ''s1''),
           (1000, RecordPageView ''/b'' ''page'' ''s1''),
           (2000, RecordPageView ''/a'' ''page'' ''s2''),
           (3000, BackfillAggregates)]"
  let ?s1 = "\<lparr>pageViews =
           [\<lparr>pv_id = 0, path = ''/a'', pageType = ''page'', sessionId = ''s1'', timestamp = 0\<rparr>],
         activeSessions = [], pageViewsByPath = {(''/a'', 0::int, 0::nat)},
         totalPageViews = {((), (), 0::nat)}, uniqueVisitors = {((), ''s1'', 0::nat)},
         nextId = 1\<rparr>"
  have wf: "wf_store empty_store" by (rule wf_empty_store)
  have wf1: "wf_store ?s1" by (simp add: wf_store_def agg_ids_def)
  have e: "pageViews empty_store = []" "nextId empty_store = 0" "uniqueVisitors empty_store = {}"
    by (simp_all add: empty_store_def)
  have one: "uniqueVisitors (recordPageView 0 ''/a'' ''page'' ''s1'' empty_store) = {((), ''s1'', 0)}
     \<and> pageViews (recordPageView 0 ''/a'' ''page'' ''s1'' empty_store) =
       [\<lparr>pv_id = 0, path = ''/a'', pageType = ''page'', sessionId = ''s1'', timestamp = 0\<rparr>]"
    using uniqueVisitors_first_view_only [of empty_store "''s1''" 0 "''/a''" "''page''" "[]"] wf
    by (simp add: e)
  have two: "uniqueVisitors (recordPageView 1000 ''/b'' ''page'' ''s1'' ?s1) = {((), ''s1'', 0)}"
    using uniqueVisitors_first_view_only [of ?s1 "''s1''" 1000 "''/b''" "''page''" "[]"] wf1
    by simp
  from exec_total [OF wf] obtain s' where s': "exec empty_store ?calls = Some s'" by blast
  then have v: "pageViews s' =
      [\<lparr>pv_id = 0, path = ''/a'', pageType = ''page'', sessionId = ''s1'', timestamp = 0\<rparr>,
       \<lparr>pv_id = 1, path = ''/b'', pageType = ''page'', sessionId = ''s1'', timestamp = 1000\<rparr>,
       \<lparr>pv_id = 2, path = ''/a'', pageType = ''page'', sessionId = ''s2'', timestamp = 2000\<rparr>]"
    by (auto simp: run_defs backfillAggregates_eq simp del: backfillAggregates_def)
  have "{e \<in> uniqueVisitors s'. fst (snd e) = ''s1''} = {((), ''s1'', 0)}"
    using uniqueVisitors_first_view_only [of empty_store "''s1''" 0 "''/a''" "''page''" ?calls s' "''s1''"] s'
    by (simp add: v by_session_def first_def)
  with wf one two s' v show ?thesis by simp
qed

section \<open>Active sessions\<close>

text \<open>
  C8. From the empty store, every sequence of calls of the five functions runs to the end and
  reaches a store with at most one active-session row per session identifier. \<open>heartbeat\<close>
  appends a row only when no row has the session identifier; otherwise the rows keep their
  identifiers and session identifiers (the existing row is patched in place or left alone).
  \<open>cleanupStaleSessions\<close> only removes rows.
\<close>

theorem one_row_per_session:
  "(\<exists>s. exec empty_store calls = Some s \<and> distinct (map as_sessionId (activeSessions s)))
   \<and> (heartbeat now sid cp s0 = Some s1 \<longrightarrow>
        (if sid \<in> as_sessionId ` set (activeSessions s0)
         then map as_id (activeSessions s1) = map as_id (activeSessions s0) \<and>
              map as_sessionId (activeSessions s1) = map as_sessionId (activeSessions s0)
         else activeSessions s1 = activeSessions s0 @
                [\<lparr>as_id = nextId s0, as_sessionId = sid, currentPath = cp, lastSeen = now\<rparr>]))
   \<and> (cleanupStaleSessions now s0 = Some (s2, n) \<longrightarrow>
        (\<exists>P. activeSessions s2 = filter P (activeSessions s0)))"
proof (intro conjI impI)
  from exec_total [OF wf_empty_store] obtain s where s: "exec empty_store calls = Some s"
    by blast
  have "wf_store s \<and> distinct (map as_sessionId (activeSessions s))"
    by (rule exec_invariant [where I = "\<lambda>s. wf_store s \<and> distinct (map as_sessionId (activeSessions s))",
          OF _ one_row_step s])
       (simp_all add: wf_empty_store, simp add: empty_store_def)
  with s show "\<exists>s. exec empty_store calls = Some s \<and> distinct (map as_sessionId (activeSessions s))"
    by blast
next
  assume h: "heartbeat now sid cp s0 = Some s1"
  show "if sid \<in> as_sessionId ` set (activeSessions s0)
         then map as_id (activeSessions s1) = map as_id (activeSessions s0) \<and>
              map as_sessionId (activeSessions s1) = map as_sessionId (activeSessions s0)
         else activeSessions s1 = activeSessions s0 @
                [\<lparr>as_id = nextId s0, as_sessionId = sid, currentPath = cp, lastSeen = now\<rparr>]"
  proof (cases "first (by_sessionId sid (activeSessions s0))")
    case None
    then have "sid \<notin> as_sessionId ` set (activeSessions s0)"
      by (auto simp: by_sessionId_def first_filter_None)
    with None h show ?thesis by (auto simp: heartbeat_new)
  next
    case (Some r)
    then have "sid \<in> as_sessionId ` set (activeSessions s0)"
      using first_filter_Some [of "\<lambda>r. as_sessionId r = sid" "activeSessions s0" r]
      by (auto simp: by_sessionId_def)
    with Some h show ?thesis
      by (auto simp: heartbeat_existing patch_sessionIds patch_ids simp del: map_map
          split: if_splits)
  qed
next
  assume "cleanupStaleSessions now s0 = Some (s2, n)"
  then obtain ids where "delete_all ids s0 = Some s2"
    by (auto simp: cleanupStaleSessions_def Let_def split: option.splits)
  from delete_all_filter [OF this] show "\<exists>P. activeSessions s2 = filter P (activeSessions s0)"
    by blast
qed

theorem one_row_per_session_witness:
  "(\<exists>s. exec empty_store
          [(0, Heartbeat ''s1'' ''/a''), (1000, Heartbeat ''s1'' ''/b''),
           (2000, Heartbeat ''s2'' ''/a''), (125000, CleanupStaleSessions)] = Some s
      \<and> distinct (map as_sessionId (activeSessions s)))
   \<and> heartbeat 1000 ''s1'' ''/b''
        (empty_store\<lparr>activeSessions :=
           [\<lparr>as_id = 0, as_sessionId = ''s1'', currentPath = ''/a'', lastSeen = 0\<rparr>],
           nextId := 1\<rparr>)
      = Some (empty_store\<lparr>activeSessions :=
           [\<lparr>as_id = 0, as_sessionId = ''s1'', currentPath = ''/b'', lastSeen = 1000\<rparr>],
           nextId := 1\<rparr>)
   \<and> map as_id [\<lparr>as_id = 0, as_sessionId = ''s1'', currentPath = ''/b'', lastSeen = 1000\<rparr>]
      = map as_id [\<lparr>as_id = 0, as_sessionId = ''s1'', currentPath = ''/a'', lastSeen = 0\<rparr>]
   \<and> cleanupStaleSessions 125000
        (empty_store\<lparr>activeSessions :=
           [\<lparr>as_id = 0, as_sessionId = ''s1'', currentPath = ''/b'', lastSeen = 1000\<rparr>,
            \<lparr>as_id = 1, as_sessionId = ''s2'', currentPath = ''/a'', lastSeen = 120000\<rparr>],
           nextId := 2\<rparr>)
      = Some (empty_store\<lparr>activeSessions :=
           [\<lparr>as_id = 1, as_sessionId = ''s2'', currentPath = ''/a'', lastSeen = 120000\<rparr>],
           nextId := 2\<rparr>, 1)
   \<and> (\<exists>P. [\<lparr>as_id = 1, as_sessionId = ''s2'', currentPath = ''/a'', lastSeen = 120000\<rparr>] =
          filter P
           [\<lparr>as_id = 0, as_sessionId = ''s1'', currentPath = ''/b'', lastSeen = 1000\<rparr>,
            \<lparr>as_id = 1, as_sessionId = ''s2'', currentPath = ''/a'', lastSeen = 120000\<rparr>])"
proof -
  let ?r0 = "\<lparr>as_id = 0, as_sessionId = ''s1'', currentPath = ''/a'', lastSeen = 0\<rparr>"
  let ?r1 = "\<lparr>as_id = 0, as_sessionId = ''s1'', currentPath = ''/b'', lastSeen = 1000\<rparr>"
  let ?r2 = "\<lparr>as_id = 1, as_sessionId = ''s2'', currentPath = ''/a'', lastSeen = 120000\<rparr>"
  let ?s0 = "empty_store\<lparr>activeSessions := [?r0], nextId := 1\<rparr>"
  let ?s1 = "empty_store\<lparr>activeSessions := [?r1], nextId := 1\<rparr>"
  let ?s2 = "empty_store\<lparr>activeSessions := [?r1, ?r2], nextId := 2\<rparr>"
  let ?s3 = "empty_store\<lparr>activeSessions := [?r2], nextId := 2\<rparr>"
  have h: "heartbeat 1000 ''s1'' ''/b'' ?s0 = Some ?s1"
    by (simp add: run_defs)
  have c: "cleanupStaleSessions 125000 ?s2 = Some (?s3, 1)"
    by (simp add: run_defs)
  show ?thesis
    using one_row_per_session [of "[(0, Heartbeat ''s1'' ''/a''), (1000, Heartbeat ''s1'' ''/b''),
           (2000, Heartbeat ''s2'' ''/a''), (125000, CleanupStaleSessions)]"
           1000 "''s1''" "''/b''" ?s0 ?s1]
      one_row_per_session [where now = 125000 and ?s0.0 = ?s2 and ?s2.0 = ?s3 and n = 1] h c
    by (simp add: empty_store_def)
qed

text \<open>
  C5. On a well-formed store with at most one row per session (every store a run reaches):
  when the row of \<open>sessionId\<close> has the same \<open>currentPath\<close> and its \<open>lastSeen\<close> is less than
  \<open>HEARTBEAT_DEDUP_MS\<close> before the current time, \<open>heartbeat\<close> leaves the store unchanged;
  otherwise, when the session has a row, that row gets the argument path and the current
  time and nothing else changes (so a call with a different path, or one at least 10
  seconds after the last write, always updates both fields); when it has none, a new row is
  appended.
\<close>

theorem heartbeat_debounced_upsert:
  assumes "wf_store s" "distinct (map as_sessionId (activeSessions s))"
  shows "heartbeat now sid cp s = Some
     (if \<exists>r\<in>set (activeSessions s).
           as_sessionId r = sid \<and> currentPath r = cp \<and> now - lastSeen r < HEARTBEAT_DEDUP_MS
      then s
      else if sid \<in> as_sessionId ` set (activeSessions s)
      then s\<lparr>activeSessions :=
             map (\<lambda>r. if as_sessionId r = sid then r\<lparr>currentPath := cp, lastSeen := now\<rparr> else r)
               (activeSessions s)\<rparr>
      else s\<lparr>activeSessions := activeSessions s @
                [\<lparr>as_id = nextId s, as_sessionId = sid, currentPath = cp, lastSeen = now\<rparr>],
             nextId := Suc (nextId s)\<rparr>)"
proof (cases "first (by_sessionId sid (activeSessions s))")
  case None
  then have "\<forall>r\<in>set (activeSessions s). as_sessionId r \<noteq> sid"
    by (simp add: by_sessionId_def first_filter_None)
  then have "\<not> (\<exists>r\<in>set (activeSessions s).
           as_sessionId r = sid \<and> currentPath r = cp \<and> now - lastSeen r < HEARTBEAT_DEDUP_MS)"
    "sid \<notin> as_sessionId ` set (activeSessions s)" by auto
  with None show ?thesis by (simp add: heartbeat_new)
next
  case (Some r)
  then have r: "r \<in> set (activeSessions s)" "as_sessionId r = sid"
    using first_filter_Some [of "\<lambda>r. as_sessionId r = sid" "activeSessions s" r]
    by (simp_all add: by_sessionId_def)
  from assms(1) have ids: "distinct (map as_id (activeSessions s))" by (simp add: wf_store_def)
  from assms(2) have "inj_on as_sessionId (set (activeSessions s))" by (simp add: distinct_map)
  with r have only: "\<And>x. x \<in> set (activeSessions s) \<Longrightarrow> as_sessionId x = sid \<Longrightarrow> x = r"
    by (auto dest: inj_onD)
  have c: "(\<exists>x\<in>set (activeSessions s).
           as_sessionId x = sid \<and> currentPath x = cp \<and> now - lastSeen x < HEARTBEAT_DEDUP_MS)
        \<longleftrightarrow> currentPath r = cp \<and> now - lastSeen r < HEARTBEAT_DEDUP_MS"
    using r only by blast
  have m: "sid \<in> as_sessionId ` set (activeSessions s)" using r by force
  have pm: "map (\<lambda>x. if as_id x = as_id r then x\<lparr>currentPath := cp, lastSeen := now\<rparr> else x)
               (activeSessions s) =
      map (\<lambda>x. if as_sessionId x = as_sessionId r
                then x\<lparr>currentPath := cp, lastSeen := now\<rparr> else x)
               (activeSessions s)"
    by (rule patch_unique_row [OF assms(2) ids r(1)])
  show ?thesis
    unfolding heartbeat_existing [OF Some] c pm r(2) using m by simp
qed

theorem heartbeat_debounced_upsert_witness:
  "heartbeat 5000 ''s1'' ''/a''
     (empty_store\<lparr>activeSessions :=
        [\<lparr>as_id = 0, as_sessionId = ''s1'', currentPath = ''/a'', lastSeen = 0\<rparr>], nextId := 1\<rparr>)
     = Some (empty_store\<lparr>activeSessions :=
        [\<lparr>as_id = 0, as_sessionId = ''s1'', currentPath = ''/a'', lastSeen = 0\<rparr>], nextId := 1\<rparr>)
   \<and> heartbeat 5000 ''s1'' ''/b''
     (empty_store\<lparr>activeSessions :=
        [\<lparr>as_id = 0, as_sessionId = ''s1'', currentPath = ''/a'', lastSeen = 0\<rparr>], nextId := 1\<rparr>)
     = Some (empty_store\<lparr>activeSessions :=
        [\<lparr>as_id = 0, as_sessionId = ''s1'', currentPath = ''/b'', lastSeen = 5000\<rparr>], nextId := 1\<rparr>)
   \<and> heartbeat 10000 ''s1'' ''/a''
     (empty_store\<lparr>activeSessions :=
        [\<lparr>as_id = 0, as_sessionId = ''s1'', currentPath = ''/a'', lastSeen = 0\<rparr>], nextId := 1\<rparr>)
     = Some (empty_store\<lparr>activeSessions :=
        [\<lparr>as_id = 0, as_sessionId = ''s1'', currentPath = ''/a'', lastSeen = 10000\<rparr>], nextId := 1\<rparr>)
   \<and> heartbeat 5000 ''s2'' ''/a''
     (empty_store\<lparr>activeSessions :=
        [\<lparr>as_id = 0, as_sessionId = ''s1'', currentPath = ''/a'', lastSeen = 0\<rparr>], nextId := 1\<rparr>)
     = Some (empty_store\<lparr>activeSessions :=
        [\<lparr>as_id = 0, as_sessionId = ''s1'', currentPath = ''/a'', lastSeen = 0\<rparr>,
         \<lparr>as_id = 1, as_sessionId = ''s2'', currentPath = ''/a'', lastSeen = 5000\<rparr>], nextId := 2\<rparr>)"
proof -
  let ?s = "empty_store\<lparr>activeSessions :=
        [\<lparr>as_id = 0, as_sessionId = ''s1'', currentPath = ''/a'', lastSeen = 0\<rparr>], nextId := 1\<rparr>"
  have wf: "wf_store ?s" by (simp add: wf_store_def empty_store_def agg_ids_empty)
  have d: "distinct (map as_sessionId (activeSessions ?s))" by simp
  show ?thesis
    using heartbeat_debounced_upsert [OF wf d, of 5000 "''s1''" "''/a''"]
      heartbeat_debounced_upsert [OF wf d, of 5000 "''s1''" "''/b''"]
      heartbeat_debounced_upsert [OF wf d, of 10000 "''s1''" "''/a''"]
      heartbeat_debounced_upsert [OF wf d, of 5000 "''s2''" "''/a''"]
    by (simp add: HEARTBEAT_DEDUP_MS_def empty_store_def)
qed

text \<open>
  C6. On a well-formed store \<open>cleanupStaleSessions\<close> succeeds; the rows it keeps are those
  whose \<open>lastSeen\<close> is at most \<open>SESSION_TIMEOUT_MS\<close> before the current time, in their order
  and unchanged, so it deletes exactly the rows strictly older than 2 minutes; nothing else
  in the store changes; and it returns the number of rows deleted.
\<close>

theorem cleanupStaleSessions_exact:
  assumes "wf_store s"
  shows "\<exists>s'. cleanupStaleSessions now s =
            Some (s', length (filter (\<lambda>r. SESSION_TIMEOUT_MS < now - lastSeen r) (activeSessions s)))
     \<and> activeSessions s' = filter (\<lambda>r. now - lastSeen r \<le> SESSION_TIMEOUT_MS) (activeSessions s)
     \<and> s' = s\<lparr>activeSessions := activeSessions s'\<rparr>"
proof -
  from assms have d: "distinct (map as_id (activeSessions s))" by (simp add: wf_store_def)
  have 1: "(\<lambda>r. \<not> lastSeen r < now - SESSION_TIMEOUT_MS) = (\<lambda>r. now - lastSeen r \<le> SESSION_TIMEOUT_MS)"
    by (auto simp: fun_eq_iff)
  have 2: "(\<lambda>r. lastSeen r < now - SESSION_TIMEOUT_MS) = (\<lambda>r. SESSION_TIMEOUT_MS < now - lastSeen r)"
    by (auto simp: fun_eq_iff)
  show ?thesis
    unfolding cleanupStaleSessions_eq [OF d] 1 2 by simp
qed

theorem cleanupStaleSessions_exact_witness:
  "wf_store (empty_store\<lparr>activeSessions :=
       [\<lparr>as_id = 0, as_sessionId = ''s1'', currentPath = ''/a'', lastSeen = 4999\<rparr>,
        \<lparr>as_id = 1, as_sessionId = ''s2'', currentPath = ''/a'', lastSeen = 5000\<rparr>,
        \<lparr>as_id = 2, as_sessionId = ''s3'', currentPath = ''/b'', lastSeen = 100000\<rparr>],
       nextId := 3\<rparr>)
   \<and> cleanupStaleSessions 125000 (empty_store\<lparr>activeSessions :=
       [\<lparr>as_id = 0, as_sessionId = ''s1'', currentPath = ''/a'', lastSeen = 4999\<rparr>,
        \<lparr>as_id = 1, as_sessionId = ''s2'', currentPath = ''/a'', lastSeen = 5000\<rparr>,
        \<lparr>as_id = 2, as_sessionId = ''s3'', currentPath = ''/b'', lastSeen = 100000\<rparr>],
       nextId := 3\<rparr>)
     = Some (empty_store\<lparr>activeSessions :=
       [\<lparr>as_id = 1, as_sessionId = ''s2'', currentPath = ''/a'', lastSeen = 5000\<rparr>,
        \<lparr>as_id = 2, as_sessionId = ''s3'', currentPath = ''/b'', lastSeen = 100000\<rparr>],
       nextId := 3\<rparr>, 1)"
proof -
  let ?s = "empty_store\<lparr>activeSessions :=
       [\<lparr>as_id = 0, as_sessionId = ''s1'', currentPath = ''/a'', lastSeen = 4999\<rparr>,
        \<lparr>as_id = 1, as_sessionId = ''s2'', currentPath = ''/a'', lastSeen = 5000\<rparr>,
        \<lparr>as_id = 2, as_sessionId = ''s3'', currentPath = ''/b'', lastSeen = 100000\<rparr>],
       nextId := 3\<rparr>"
  have wf: "wf_store ?s"
    by (simp add: wf_store_def empty_store_def agg_ids_empty)
  from cleanupStaleSessions_exact [OF wf, of 125000] obtain s' where
    "cleanupStaleSessions 125000 ?s =
            Some (s', length (filter (\<lambda>r. SESSION_TIMEOUT_MS < 125000 - lastSeen r) (activeSessions ?s)))"
    "activeSessions s' = filter (\<lambda>r. 125000 - lastSeen r \<le> SESSION_TIMEOUT_MS) (activeSessions ?s)"
    "s' = ?s\<lparr>activeSessions := activeSessions s'\<rparr>"
    by blast
  then have "cleanupStaleSessions 125000 ?s = Some (?s\<lparr>activeSessions :=
       [\<lparr>as_id = 1, as_sessionId = ''s2'', currentPath = ''/a'', lastSeen = 5000\<rparr>,
        \<lparr>as_id = 2, as_sessionId = ''s3'', currentPath = ''/b'', lastSeen = 100000\<rparr>]\<rparr>, 1)"
    by (simp add: SESSION_TIMEOUT_MS_def)
  with wf show ?thesis by simp
qed

text \<open>
  C9. A row whose \<open>lastSeen\<close> is exactly \<open>now - SESSION_TIMEOUT_MS\<close> is not counted by
  \<open>getStats\<close> at time \<open>now\<close> (the count is that of the rows seen less than 2 minutes ago,
  and is the same without the row), and \<open>cleanupStaleSessions\<close> at the same time keeps it.
\<close>

theorem session_timeout_boundary:
  assumes "wf_store s" "r \<in> set (activeSessions s)" "lastSeen r = now - SESSION_TIMEOUT_MS"
  shows "activeVisitors (getStats now s) =
           activeVisitors (getStats now (s\<lparr>activeSessions := filter (\<lambda>x. x \<noteq> r) (activeSessions s)\<rparr>))
     \<and> activeVisitors (getStats now s) =
           length (filter (\<lambda>x. now - lastSeen x < SESSION_TIMEOUT_MS) (activeSessions s))
     \<and> (\<exists>s' n. cleanupStaleSessions now s = Some (s', n) \<and> r \<in> set (activeSessions s'))"
proof (intro conjI)
  have "filter (\<lambda>x. now - SESSION_TIMEOUT_MS < lastSeen x) (filter (\<lambda>x. x \<noteq> r) (activeSessions s))
      = filter (\<lambda>x. now - SESSION_TIMEOUT_MS < lastSeen x) (activeSessions s)"
    unfolding filter_filter using assms(3) by (intro filter_cong) auto
  then show "activeVisitors (getStats now s) =
           activeVisitors (getStats now (s\<lparr>activeSessions := filter (\<lambda>x. x \<noteq> r) (activeSessions s)\<rparr>))"
    by (simp add: getStats_def Let_def by_lastSeen_def)
  have "filter (\<lambda>x. now - SESSION_TIMEOUT_MS < lastSeen x) (activeSessions s) =
      filter (\<lambda>x. now - lastSeen x < SESSION_TIMEOUT_MS) (activeSessions s)"
    by (intro filter_cong) auto
  then show "activeVisitors (getStats now s) =
           length (filter (\<lambda>x. now - lastSeen x < SESSION_TIMEOUT_MS) (activeSessions s))"
    by (simp add: getStats_def Let_def by_lastSeen_def)
  from assms(1) have d: "distinct (map as_id (activeSessions s))" by (simp add: wf_store_def)
  show "\<exists>s' n. cleanupStaleSessions now s = Some (s', n) \<and> r \<in> set (activeSessions s')"
    unfolding cleanupStaleSessions_eq [OF d] using assms(2,3) by simp
qed

theorem session_timeout_boundary_witness:
  "activeVisitors (getStats 125000 (empty_store\<lparr>activeSessions :=
       [\<lparr>as_id = 0, as_sessionId = ''s1'', currentPath = ''/a'', lastSeen = 5000\<rparr>,
        \<lparr>as_id = 1, as_sessionId = ''s2'', currentPath = ''/a'', lastSeen = 100000\<rparr>],
       nextId := 2\<rparr>)) = 1
   \<and> cleanupStaleSessions 125000 (empty_store\<lparr>activeSessions :=
       [\<lparr>as_id = 0, as_sessionId = ''s1'', currentPath = ''/a'', lastSeen = 5000\<rparr>,
        \<lparr>as_id = 1, as_sessionId = ''s2'', currentPath = ''/a'', lastSeen = 100000\<rparr>],
       nextId := 2\<rparr>)
     = Some (empty_store\<lparr>activeSessions :=
       [\<lparr>as_id = 0, as_sessionId = ''s1'', currentPath = ''/a'', lastSeen = 5000\<rparr>,
        \<lparr>as_id = 1, as_sessionId = ''s2'', currentPath = ''/a'', lastSeen = 100000\<rparr>],
       nextId := 2\<rparr>, 0)"
proof -
  let ?r = "\<lparr>as_id = 0, as_sessionId = ''s1'', currentPath = ''/a'', lastSeen = 5000\<rparr>"
  let ?s = "empty_store\<lparr>activeSessions :=
       [?r, \<lparr>as_id = 1, as_sessionId = ''s2'', currentPath = ''/a'', lastSeen = 100000\<rparr>],
       nextId := 2\<rparr>"
  have wf: "wf_store ?s" by (simp add: wf_store_def empty_store_def agg_ids_empty)
  have r: "?r \<in> set (activeSessions ?s)" by simp
  have b: "lastSeen ?r = 125000 - SESSION_TIMEOUT_MS" by (simp add: SESSION_TIMEOUT_MS_def)
  from session_timeout_boundary [OF wf r b]
  have 1: "activeVisitors (getStats 125000 ?s) =
           length (filter (\<lambda>x. 125000 - lastSeen x < SESSION_TIMEOUT_MS) (activeSessions ?s))"
    and 2: "\<exists>s' n. cleanupStaleSessions 125000 ?s = Some (s', n) \<and> ?r \<in> set (activeSessions s')"
    by blast+
  from 1 have a: "activeVisitors (getStats 125000 ?s) = 1"
    by (simp add: SESSION_TIMEOUT_MS_def)
  have c: "cleanupStaleSessions 125000 ?s = Some (?s, 0)"
    by (simp add: run_defs)
  from a c show ?thesis by simp
qed

section \<open>The stats query\<close>



section \<open>Backfill of the aggregates\<close>

text \<open>
  C7. \<open>backfillAggregates\<close> is idempotent: for every store, a second run leaves the whole
  store, the three aggregates included, as the first run left it and returns the same
  counts; and every insertion the second run issues (by path and total for every view,
  unique visitors for the first view of every session) finds its entry present and changes
  nothing.
\<close>

theorem backfillAggregates_idempotent:
  "fst (backfillAggregates (fst (backfillAggregates s))) = fst (backfillAggregates s)
   \<and> snd (backfillAggregates (fst (backfillAggregates s))) = snd (backfillAggregates s)
   \<and> (\<forall>d \<in> set (pageViews (fst (backfillAggregates s))).
         pageViewsByPath_insert d (fst (backfillAggregates s)) = fst (backfillAggregates s) \<and>
         totalPageViews_insert d (fst (backfillAggregates s)) = fst (backfillAggregates s))
   \<and> (\<forall>d \<in> set (firstViews {} (pageViews (fst (backfillAggregates s)))).
         uniqueVisitors_insert d (fst (backfillAggregates s)) = fst (backfillAggregates s))"
proof (intro conjI ballI)
  let ?s1 = "fst (backfillAggregates s)"
  have v: "pageViews ?s1 = pageViews s" by (simp add: backfillAggregates_eq)
  show "fst (backfillAggregates ?s1) = ?s1"
    unfolding backfillAggregates_eq [of ?s1] v
    by (simp add: backfillAggregates_eq Un_assoc)
  show "snd (backfillAggregates ?s1) = snd (backfillAggregates s)"
    by (simp add: backfillAggregates_result v)
next
  let ?s1 = "fst (backfillAggregates s)"
  fix d assume "d \<in> set (pageViews ?s1)"
  then have d: "d \<in> set (pageViews s)" by (simp add: backfillAggregates_eq)
  then have "(path d, timestamp d, pv_id d) \<in> pageViewsByPath ?s1"
    by (simp add: backfillAggregates_eq)
  then show "pageViewsByPath_insert d ?s1 = ?s1"
    by (simp add: pageViewsByPath_insert_def insertIfDoesNotExist_def)
  from d have "((), (), pv_id d) \<in> totalPageViews ?s1"
    by (simp add: backfillAggregates_eq)
  then show "totalPageViews_insert d ?s1 = ?s1"
    by (simp add: totalPageViews_insert_def insertIfDoesNotExist_def)
next
  let ?s1 = "fst (backfillAggregates s)"
  fix d assume "d \<in> set (firstViews {} (pageViews ?s1))"
  then have "d \<in> set (firstViews {} (pageViews s))" by (simp add: backfillAggregates_eq)
  then have "((), sessionId d, pv_id d) \<in> uniqueVisitors ?s1"
    by (simp add: backfillAggregates_eq)
  then show "uniqueVisitors_insert d ?s1 = ?s1"
    by (simp add: uniqueVisitors_insert_def insertIfDoesNotExist_def)
qed

theorem backfillAggregates_idempotent_witness:
  "fst (backfillAggregates
      (empty_store\<lparr>pageViews :=
         [\<lparr>pv_id = 0, path = ''/a'', pageType = ''page'', sessionId = ''s1'', timestamp = 10\<rparr>,
          \<lparr>pv_id = 1, path = ''/b'', pageType = ''page'', sessionId = ''s1'', timestamp = 20\<rparr>],
         nextId := 2\<rparr>))
     = \<lparr>pageViews =
         [\<lparr>pv_id = 0, path = ''/a'', pageType = ''page'', sessionId = ''s1'', timestamp = 10\<rparr>,
          \<lparr>pv_id = 1, path = ''/b'', pageType = ''page'', sessionId = ''s1'', timestamp = 20\<rparr>],
        activeSessions = [],
        pageViewsByPath = {(''/a'', 10, 0), (''/b'', 20, 1)},
        totalPageViews = {((), (), 0), ((), (), 1)},
        uniqueVisitors = {((), ''s1'', 0)},
        nextId = 2\<rparr>
   \<and> fst (backfillAggregates
      \<lparr>pageViews =
         [\<lparr>pv_id = 0, path = ''/a'', pageType = ''page'', sessionId = ''s1'', timestamp = 10\<rparr>,
          \<lparr>pv_id = 1, path = ''/b'', pageType = ''page'', sessionId = ''s1'', timestamp = 20\<rparr>],
        activeSessions = [],
        pageViewsByPath = {(''/a'', 10, 0), (''/b'', 20, 1)},
        totalPageViews = {((), (), 0), ((), (), 1)},
        uniqueVisitors = {((), ''s1'', 0)},
        nextId = 2\<rparr>)
     = \<lparr>pageViews =
         [\<lparr>pv_id = 0, path = ''/a'', pageType = ''page'', sessionId = ''s1'', timestamp = 10\<rparr>,
          \<lparr>pv_id = 1, path = ''/b'', pageType = ''page'', sessionId = ''s1'', timestamp = 20\<rparr>],
        activeSessions = [],
        pageViewsByPath = {(''/a'', 10, 0), (''/b'', 20, 1)},
        totalPageViews = {((), (), 0), ((), (), 1)},
        uniqueVisitors = {((), ''s1'', 0)},
        nextId = 2\<rparr>
   \<and> pageViewsByPath_insert
        \<lparr>pv_id = 1, path = ''/b'', pageType = ''page'', sessionId = ''s1'', timestamp = 20\<rparr>
      \<lparr>pageViews =
         [\<lparr>pv_id = 0, path = ''/a'', pageType = ''page'', sessionId = ''s1'', timestamp = 10\<rparr>,
          \<lparr>pv_id = 1, path = ''/b'', pageType = ''page'', sessionId = ''s1'', timestamp = 20\<rparr>],
        activeSessions = [],
        pageViewsByPath = {(''/a'', 10, 0), (''/b'', 20, 1)},
        totalPageViews = {((), (), 0), ((), (), 1)},
        uniqueVisitors = {((), ''s1'', 0)},
        nextId = 2\<rparr>
     = \<lparr>pageViews =
         [\<lparr>pv_id = 0, path = ''/a'', pageType = ''page'', sessionId = ''s1'', timestamp = 10\<rparr>,
          \<lparr>pv_id = 1, path = ''/b'', pageType = ''page'', sessionId = ''s1'', timestamp = 20\<rparr>],
        activeSessions = [],
        pageViewsByPath = {(''/a'', 10, 0), (''/b'', 20, 1)},
        totalPageViews = {((), (), 0), ((), (), 1)},
        uniqueVisitors = {((), ''s1'', 0)},
        nextId = 2\<rparr>
   \<and> uniqueVisitors_insert
        \<lparr>pv_id = 0, path = ''/a'', pageType = ''page'', sessionId = ''s1'', timestamp = 10\<rparr>
      \<lparr>pageViews =
         [\<lparr>pv_id = 0, path = ''/a'', pageType = ''page'', sessionId = ''s1'', timestamp = 10\<rparr>,
          \<lparr>pv_id = 1, path = ''/b'', pageType = ''page'', sessionId = ''s1'', timestamp = 20\<rparr>],
        activeSessions = [],
        pageViewsByPath = {(''/a'', 10, 0), (''/b'', 20, 1)},
        totalPageViews = {((), (), 0), ((), (), 1)},
        uniqueVisitors = {((), ''s1'', 0)},
        nextId = 2\<rparr>
     = \<lparr>pageViews =
         [\<lparr>pv_id = 0, path = ''/a'', pageType = ''page'', sessionId = ''s1'', timestamp = 10\<rparr>,
          \<lparr>pv_id = 1, path = ''/b'', pageType = ''page'', sessionId = ''s1'', timestamp = 20\<rparr>],
        activeSessions = [],
        pageViewsByPath = {(''/a'', 10, 0), (''/b'', 20, 1)},
        totalPageViews = {((), (), 0), ((), (), 1)},
        uniqueVisitors = {((), ''s1'', 0)},
        nextId = 2\<rparr>"
proof -
  let ?e0 = "\<lparr>pv_id = 0, path = ''/a'', pageType = ''page'', sessionId = ''s1'', timestamp = 10\<rparr>"
  let ?e1 = "\<lparr>pv_id = 1, path = ''/b'', pageType = ''page'', sessionId = ''s1'', timestamp = 20\<rparr>"
  let ?s = "empty_store\<lparr>pageViews := [?e0, ?e1], nextId := 2\<rparr>"
  let ?s1 = "\<lparr>pageViews = [?e0, ?e1],
        activeSessions = [],
        pageViewsByPath = {(''/a'', 10::int, 0::nat), (''/b'', 20, 1)},
        totalPageViews = {((), (), 0::nat), ((), (), 1)},
        uniqueVisitors = {((), ''s1'', 0::nat)},
        nextId = 2\<rparr>"
  have 1: "fst (backfillAggregates ?s) = ?s1"
    by (simp add: backfillAggregates_def Let_def pageViewsByPath_insert_def
        totalPageViews_insert_def uniqueVisitors_insert_def insertIfDoesNotExist_def
        empty_store_def insert_commute)
  note idem = backfillAggregates_idempotent [of ?s, unfolded 1]
  from idem have 2: "fst (backfillAggregates ?s1) = ?s1"
    by blast
  from idem have "\<forall>d \<in> set (pageViews ?s1). pageViewsByPath_insert d ?s1 = ?s1"
    by blast
  then have 3: "pageViewsByPath_insert ?e1 ?s1 = ?s1"
    by simp
  from idem have "\<forall>d \<in> set (firstViews {} (pageViews ?s1)). uniqueVisitors_insert d ?s1 = ?s1"
    by blast
  then have 4: "uniqueVisitors_insert ?e0 ?s1 = ?s1"
    by simp
  from 1 2 3 4 show ?thesis by simp
qed

section \<open>Statuses of the raw markdown function\<close>

text \<open>
  C10 (amended). Let the slug be the \<open>slug\<close> query parameter (the empty string when the
  parameters or the parameter are missing), trimmed of white space and then stripped of its
  leading and trailing slashes. The handler answers 400, with body \<open>missing slug\<close>, exactly
  when the slug is empty. Otherwise the file name is the slug, with \<open>.md\<close> appended unless it
  ends in \<open>.md\<close>; the handler reads \<^verbatim>\<open>path.join(cwd, "public", "raw", name)\<close> and then
  \<^verbatim>\<open>path.join(cwd, "dist", "raw", name)\<close>, and answers 200 with the text of the first of
  the two that exists, can be read and has a character that is not white space, and 404
  when neither does. When no segment of the file name is \<open>..\<close>, the two paths are the
  directories \<^verbatim>\<open>path.join(cwd, "public", "raw")\<close> and \<^verbatim>\<open>path.join(cwd, "dist", "raw")\<close>
  followed by a slash and the file name without its empty and \<open>.\<close> segments, which is not
  empty and has no \<open>..\<close> segment: the file lies below the directory. The claim as written
  fails in two ways, both shown by the counterexample below: a file of white space alone
  is non-empty and still gives 404, and a slug with \<open>..\<close> segments is answered with a file
  outside both directories.
\<close>

theorem handler_status:
  "let input = (case queryStringParameters ev of None \<Rightarrow> []
                | Some q \<Rightarrow> (case q (js ''slug'') of None \<Rightarrow> [] | Some v \<Rightarrow> v));
       slug = stripSlashes (trim input);
       filename = (if endsWith slug (js ''.md'') then slug else slug @ js ''.md'');
       public = path_join [cwd env, js ''public'', js ''raw'', filename];
       dist = path_join [cwd env, js ''dist'', js ''raw'', filename];
       name = join_segments (filter plain_segment (split_slash filename))
   in (statusCode (handler env ev) = 400 \<longleftrightarrow> slug = [])
      \<and> (slug = [] \<longrightarrow> body (handler env ev) = js ''missing slug'')
      \<and> (slug \<noteq> [] \<longrightarrow>
           (case servable (fs env) public of
              Some b \<Rightarrow> statusCode (handler env ev) = 200 \<and> body (handler env ev) = b
            | None \<Rightarrow>
               (case servable (fs env) dist of
                  Some b \<Rightarrow> statusCode (handler env ev) = 200 \<and> body (handler env ev) = b
                | None \<Rightarrow> statusCode (handler env ev) = 404)))
      \<and> (slug \<noteq> [] \<and> js ''..'' \<notin> set (split_slash filename) \<longrightarrow>
           public = path_join [cwd env, js ''public'', js ''raw''] @ 47 # name \<and>
           dist = path_join [cwd env, js ''dist'', js ''raw''] @ 47 # name \<and>
           name \<noteq> [] \<and> js ''..'' \<notin> set (split_slash name))"
proof -
  define slug where "slug = stripSlashes (trim (case queryStringParameters ev of None \<Rightarrow> []
                | Some q \<Rightarrow> (case q (js ''slug'') of None \<Rightarrow> [] | Some v \<Rightarrow> v)))"
  define filename where "filename = (if endsWith slug (js ''.md'') then slug else slug @ js ''.md'')"
  define public where "public = path_join [cwd env, js ''public'', js ''raw'', filename]"
  define dist where "dist = path_join [cwd env, js ''dist'', js ''raw'', filename]"
  define name where "name = join_segments (filter plain_segment (split_slash filename))"
  have n: "normalizeSlug (case queryStringParameters ev of None \<Rightarrow> None
                          | Some q \<Rightarrow> q (js ''slug'')) = slug"
    unfolding slug_def by (rule slug_of_event)
  have rc: "readCandidates (fs env) [public, dist] =
     (case servable (fs env) public of Some b \<Rightarrow> Some b | None \<Rightarrow> servable (fs env) dist)"
    by (rule readCandidates_two)
  have h: "handler env ev =
     (if slug = [] then
        \<lparr>statusCode = 400,
         headers = [(''Content-Type'', ''text/plain; charset=utf-8''),
                    (''Access-Control-Allow-Origin'', ''*'')],
         body = js ''missing slug''\<rparr>
      else case readCandidates (fs env) [public, dist] of
             None \<Rightarrow>
               \<lparr>statusCode = 404,
                headers = [(''Content-Type'', ''text/plain; charset=utf-8''),
                           (''Access-Control-Allow-Origin'', ''*'')],
                body = js ''not found: '' @ filename\<rparr>
           | Some b \<Rightarrow>
               \<lparr>statusCode = 200,
                headers = [(''Content-Type'', ''text/plain; charset=utf-8''),
                           (''Access-Control-Allow-Origin'', ''*''),
                           (''Cache-Control'', ''public, max-age=3600'')],
                body = b\<rparr>)"
    unfolding handler_def Let_def n public_def dist_def filename_def by (rule refl)
  have status: "(statusCode (handler env ev) = 400 \<longleftrightarrow> slug = [])
      \<and> (slug = [] \<longrightarrow> body (handler env ev) = js ''missing slug'')
      \<and> (slug \<noteq> [] \<longrightarrow>
           (case servable (fs env) public of
              Some b \<Rightarrow> statusCode (handler env ev) = 200 \<and> body (handler env ev) = b
            | None \<Rightarrow>
               (case servable (fs env) dist of
                  Some b \<Rightarrow> statusCode (handler env ev) = 200 \<and> body (handler env ev) = b
                | None \<Rightarrow> statusCode (handler env ev) = 404)))"
  proof (cases "slug = []")
    case True
    then show ?thesis unfolding h by simp
  next
    case False
    show ?thesis
    proof (cases "servable (fs env) public")
      case (Some b)
      with False show ?thesis unfolding h rc by simp
    next
      case None
      note pub = this
      show ?thesis
      proof (cases "servable (fs env) dist")
        case None
        with pub False show ?thesis unfolding h rc by simp
      next
        case (Some b)
        with pub False show ?thesis unfolding h rc by simp
      qed
    qed
  qed
  have place: "public = path_join [cwd env, js ''public'', js ''raw''] @ 47 # name \<and>
           dist = path_join [cwd env, js ''dist'', js ''raw''] @ 47 # name \<and>
           name \<noteq> [] \<and> js ''..'' \<notin> set (split_slash name)"
    if dots: "js ''..'' \<notin> set (split_slash filename)"
  proof -
    have "\<exists>pre. filename = pre @ js ''.md''"
    proof (cases "endsWith slug (js ''.md'')")
      case True
      then show ?thesis using endsWith_suffix [of slug "js ''.md''"] by (simp add: filename_def)
    next
      case False
      then show ?thesis by (simp add: filename_def)
    qed
    then obtain pre where pre: "filename = pre @ js ''.md''" by blast
    note f = md_file_name [OF pre]
    have seg: "47 \<notin> set (js ''public'')" "plain_segment (js ''public'')" "js ''public'' \<noteq> js ''..''"
      "47 \<notin> set (js ''dist'')" "plain_segment (js ''dist'')" "js ''dist'' \<noteq> js ''..''"
      "47 \<notin> set (js ''raw'')" "plain_segment (js ''raw'')" "js ''raw'' \<noteq> js ''..''"
      by (simp_all add: js_literals plain_segment_def)
    have 1: "public = path_join [cwd env, js ''public'', js ''raw''] @ 47 # name"
      unfolding public_def name_def
      by (rule normalize_dir_file [OF seg(1,2,3) seg(7,8,9) f(1,2) dots f(3)])
    have 2: "dist = path_join [cwd env, js ''dist'', js ''raw''] @ 47 # name"
      unfolding dist_def name_def
      by (rule normalize_dir_file [OF seg(4,5,6) seg(7,8,9) f(1,2) dots f(3)])
    have "last (filter plain_segment (split_slash filename))
        \<in> set (filter plain_segment (split_slash filename))"
      using f(3) by (rule last_in_set)
    then have "last (filter plain_segment (split_slash filename)) \<noteq> []"
      by (auto simp: plain_segment_def)
    with f(3) have 3: "name \<noteq> []" unfolding name_def by (rule join_segments_ne)
    have 4: "js ''..'' \<notin> set (split_slash name)"
      unfolding name_def using dots f(3) by (rule segments_of_join)
    from 1 2 3 4 show ?thesis by blast
  qed
  from status place have "(statusCode (handler env ev) = 400 \<longleftrightarrow> slug = [])
      \<and> (slug = [] \<longrightarrow> body (handler env ev) = js ''missing slug'')
      \<and> (slug \<noteq> [] \<longrightarrow>
           (case servable (fs env) public of
              Some b \<Rightarrow> statusCode (handler env ev) = 200 \<and> body (handler env ev) = b
            | None \<Rightarrow>
               (case servable (fs env) dist of
                  Some b \<Rightarrow> statusCode (handler env ev) = 200 \<and> body (handler env ev) = b
                | None \<Rightarrow> statusCode (handler env ev) = 404)))
      \<and> (slug \<noteq> [] \<and> js ''..'' \<notin> set (split_slash filename) \<longrightarrow>
           public = path_join [cwd env, js ''public'', js ''raw''] @ 47 # name \<and>
           dist = path_join [cwd env, js ''dist'', js ''raw''] @ 47 # name \<and>
           name \<noteq> [] \<and> js ''..'' \<notin> set (split_slash name))"
    by blast
  then show ?thesis
    unfolding Let_def slug_def [symmetric] filename_def [symmetric] public_def [symmetric]
      dist_def [symmetric] name_def [symmetric] .
qed


theorem handler_status_witness:
  "statusCode (handler (example_env []) (example_event '' / '')) = 400
   \<and> body (handler (example_env []) (example_event '' / '')) = js ''missing slug''
   \<and> statusCode (handler (example_env [(''/app/dist/raw/a.md'', Contents (js ''# A''))])
         (example_event ''/a/'')) = 200
   \<and> body (handler (example_env [(''/app/dist/raw/a.md'', Contents (js ''# A''))])
         (example_event ''/a/'')) = js ''# A''
   \<and> statusCode (handler (example_env [(''/app/public/raw/a.md'', ReadThrows)])
         (example_event ''a.md'')) = 404
   \<and> path_join [js ''/app'', js ''public'', js ''raw'', js ''a.md''] = js ''/app/public/raw/a.md''"
proof -
  have 1: "statusCode (handler (example_env []) (example_event '' / '')) = 400
     \<and> body (handler (example_env []) (example_event '' / '')) = js ''missing slug''"
    using handler_status [of "example_event '' / ''" "example_env []"]
    by (simp add: raw_defs)
  have 2: "statusCode (handler (example_env [(''/app/dist/raw/a.md'', Contents (js ''# A''))])
         (example_event ''/a/'')) = 200
   \<and> body (handler (example_env [(''/app/dist/raw/a.md'', Contents (js ''# A''))])
         (example_event ''/a/'')) = js ''# A''"
    using handler_status [of "example_event ''/a/''"
        "example_env [(''/app/dist/raw/a.md'', Contents (js ''# A''))]"]
    by (simp add: raw_defs)
  have 3: "statusCode (handler (example_env [(''/app/public/raw/a.md'', ReadThrows)])
         (example_event ''a.md'')) = 404
     \<and> path_join [js ''/app'', js ''public'', js ''raw'', js ''a.md''] = js ''/app/public/raw/a.md''"
    using handler_status [of "example_event ''a.md''"
        "example_env [(''/app/public/raw/a.md'', ReadThrows)]"]
    by (simp add: raw_defs)
  from 1 2 3 show ?thesis by simp
qed

theorem handler_blank_file_counterexample:
  "fs (example_env [(''/app/public/raw/a.md'', Contents (js '' ''))])
      (path_join [cwd (example_env [(''/app/public/raw/a.md'', Contents (js '' ''))]),
          js ''public'', js ''raw'', js ''a.md''])
     = Some (Contents (js '' ''))
   \<and> js '' '' \<noteq> []
   \<and> normalizeSlug (Some (js ''a'')) = js ''a''
   \<and> statusCode (handler (example_env [(''/app/public/raw/a.md'', Contents (js '' ''))])
         (example_event ''a'')) = 404
   \<and> normalizeSlug (Some (js ''../../secret'')) = js ''../../secret''
   \<and> path_join [js ''/app'', js ''public'', js ''raw'', js ''../../secret.md'']
       = js ''/app/secret.md''
   \<and> statusCode (handler (example_env [(''/app/secret.md'', Contents (js ''S''))])
         (example_event ''../../secret'')) = 200
   \<and> body (handler (example_env [(''/app/secret.md'', Contents (js ''S''))])
         (example_event ''../../secret'')) = js ''S''"
  by (simp add: raw_defs handler_def tryRead_def)

end
